theory Spec2Isabelle
  imports Complex_Main "HOL-Library.AList"
begin

section \<open>Python values, exceptions and string primitives\<close>

text \<open>
  The values that \<^verbatim>\<open>json.load\<close> produces: \<^verbatim>\<open>None\<close>, booleans, numbers, strings,
  lists and dictionaries.  A dictionary is an association list read with \<open>map_of\<close>.
  Numbers are integers (a float takes the same branches wherever a number is tested
  below).  Strings are lists of bytes; the model covers ASCII text.
\<close>

datatype json =
    JNull
  | JBool bool
  | JNum int
  | JStr string
  | JArr "json list"
  | JObj "(string \<times> json) list"

text \<open>
  The exceptions the backend raises or lets through.  \<^verbatim>\<open>json.JSONDecodeError\<close> and
  \<^verbatim>\<open>UnicodeDecodeError\<close> are subclasses of \<^verbatim>\<open>ValueError\<close>; \<open>SendError\<close> stands for
  whatever a websocket send raises.
\<close>

datatype error =
    ValueError
  | KeyError
  | AttributeError
  | TypeError
  | OSError
  | FileNotFoundError
  | NotADirectoryError
  | RuntimeError string
  | SendError

definition is_digit :: "char \<Rightarrow> bool" where
  "is_digit c = (c \<in> set ''0123456789'')"

definition digit_val :: "char \<Rightarrow> int" where
  "digit_val c = int (of_char c) - 48"

text \<open>
  The whitespace that \<^verbatim>\<open>int\<close> skips at either end of an ASCII string: tab, line feed,
  vertical tab, form feed, carriage return and space.  (The separators \<^verbatim>\<open>0x1C\<close> to
  \<^verbatim>\<open>0x1F\<close>, which \<^verbatim>\<open>str.strip\<close> removes, are not skipped: \<^verbatim>\<open>int\<close> raises on them.)
\<close>

definition is_space :: "char \<Rightarrow> bool" where
  "is_space c = (let n = (of_char c :: nat) in (9 \<le> n \<and> n \<le> 13) \<or> n = 32)"

definition strip :: "string \<Rightarrow> string" where
  "strip s = rev (dropWhile is_space (rev (dropWhile is_space s)))"

text \<open>
  \<^verbatim>\<open>int(s)\<close> in base ten, after the sign: a digit, then digits with single underscores
  between them.  \<open>int_body acc cs\<close> reads what follows a digit.  A string with more
  digits than \<^verbatim>\<open>sys.get_int_max_str_digits()\<close>, 4300 unless it was changed, is refused
  with \<^verbatim>\<open>ValueError\<close>; underscores do not count.
\<close>

definition int_max_str_digits :: nat where
  "int_max_str_digits = 4300"

fun int_body :: "int \<Rightarrow> string \<Rightarrow> int option" where
  "int_body acc [] = Some acc"
| "int_body acc [c] = (if is_digit c then Some (acc * 10 + digit_val c) else None)"
| "int_body acc (c # d # ds) =
     (if is_digit c then int_body (acc * 10 + digit_val c) (d # ds)
      else if c = CHR ''_'' \<and> is_digit d then int_body (acc * 10 + digit_val d) ds
      else None)"

definition int_unsigned :: "string \<Rightarrow> int option" where
  "int_unsigned s =
     (if int_max_str_digits < length (filter is_digit s) then None
      else
        (case s of [] \<Rightarrow> None
         | c # cs \<Rightarrow> if is_digit c then int_body (digit_val c) cs else None))"

text \<open>
  \<^verbatim>\<open>int(s)\<close>: surrounding whitespace is stripped, one sign is allowed.  \<open>None\<close> is the
  \<^verbatim>\<open>ValueError\<close> of the builtin.
\<close>

definition py_int :: "string \<Rightarrow> int option" where
  "py_int s =
     (case strip s of [] \<Rightarrow> None
      | c # cs \<Rightarrow>
          if c = CHR ''+'' then int_unsigned cs
          else if c = CHR ''-'' then map_option uminus (int_unsigned cs)
          else int_unsigned (c # cs))"

text \<open>\<^verbatim>\<open>s.split(sep)\<close> for a one-character separator.\<close>

fun split_on :: "char \<Rightarrow> string \<Rightarrow> string list" where
  "split_on sep [] = [[]]"
| "split_on sep (c # cs) =
     (if c = sep then [] # split_on sep cs
      else (case split_on sep cs of [] \<Rightarrow> [[c]] | p # ps \<Rightarrow> (c # p) # ps))"

definition endswith :: "string \<Rightarrow> string \<Rightarrow> bool" where
  "endswith s suffix = (length suffix \<le> length s \<and> drop (length s - length suffix) s = suffix)"

section \<open>domain/step.py\<close>

datatype StepStatus = PENDING | IN_PROGRESS | COMPLETED | FAILED | SKIPPED

definition status_value :: "StepStatus \<Rightarrow> string" where
  "status_value st =
     (case st of PENDING \<Rightarrow> ''pending'' | IN_PROGRESS \<Rightarrow> ''in_progress''
      | COMPLETED \<Rightarrow> ''completed'' | FAILED \<Rightarrow> ''failed'' | SKIPPED \<Rightarrow> ''skipped'')"

text \<open>
  The dataclass \<^verbatim>\<open>Step\<close>.  Nothing checks the types of \<^verbatim>\<open>project_id\<close>, \<^verbatim>\<open>phase\<close> and
  \<^verbatim>\<open>description\<close>, so they hold whatever value the JSON file gave.
\<close>

record step =
  task_id :: string
  project_id :: json
  phase :: json
  description :: json
  status :: StepStatus
  major_version :: int
  minor_version :: int

text \<open>\<^verbatim>\<open>Step._parse_version_from_task_id\<close>, on a \<^verbatim>\<open>str\<close>.\<close>

definition parse_version_from_task_id :: "string \<Rightarrow> error + int \<times> int" where
  "parse_version_from_task_id tid =
     (if tid = [] \<or> CHR ''-'' \<notin> set tid then Inl ValueError
      else
        let parts = split_on CHR ''-'' tid in
        if length parts \<noteq> 2 then Inl ValueError
        else
          (case py_int (parts ! 0) of
             None \<Rightarrow> Inl ValueError
           | Some major \<Rightarrow>
               (case py_int (parts ! 1) of
                  None \<Rightarrow> Inl ValueError
                | Some minor \<Rightarrow> Inr (major, minor))))"

text \<open>\<^verbatim>\<open>Step.__post_init__\<close>: the versions are parsed only when both are still 0.\<close>

definition post_init :: "step \<Rightarrow> error + step" where
  "post_init s =
     (if major_version s = 0 \<and> minor_version s = 0 then
        (case parse_version_from_task_id (task_id s) of
           Inl e \<Rightarrow> Inl e
         | Inr (major, minor) \<Rightarrow> Inr (s\<lparr>major_version := major, minor_version := minor\<rparr>))
      else Inr s)"

text \<open>The constructor \<^verbatim>\<open>Step(...)\<close>: the generated \<^verbatim>\<open>__init__\<close>, then \<^verbatim>\<open>__post_init__\<close>.\<close>

definition new_Step ::
  "string \<Rightarrow> json \<Rightarrow> json \<Rightarrow> json \<Rightarrow> StepStatus \<Rightarrow> int \<Rightarrow> int \<Rightarrow> error + step" where
  "new_Step tid pid ph d st major minor =
     post_init \<lparr>task_id = tid, project_id = pid, phase = ph, description = d, status = st,
                major_version = major, minor_version = minor\<rparr>"


text \<open>
  \<^verbatim>\<open>Step.from_dict\<close> receives whatever \<^verbatim>\<open>json.load\<close> returned.  \<^verbatim>\<open>d.get(k, default)\<close>
  exists on dictionaries only: on any other value the attribute lookup raises
  \<^verbatim>\<open>AttributeError\<close>.
\<close>

definition py_get :: "json \<Rightarrow> string \<Rightarrow> json \<Rightarrow> error + json" where
  "py_get d k dflt =
     (case d of
        JObj kvs \<Rightarrow> Inr (case map_of kvs k of Some v \<Rightarrow> v | None \<Rightarrow> dflt)
      | _ \<Rightarrow> Inl AttributeError)"

text \<open>\<^verbatim>\<open>d[k]\<close> with a string key: \<^verbatim>\<open>KeyError\<close> on a dictionary without the key.\<close>

definition py_getitem :: "json \<Rightarrow> string \<Rightarrow> error + json" where
  "py_getitem d k =
     (case d of
        JObj kvs \<Rightarrow> (case map_of kvs k of Some v \<Rightarrow> Inr v | None \<Rightarrow> Inl KeyError)
      | _ \<Rightarrow> Inl TypeError)"

text \<open>\<^verbatim>\<open>StepStatus(value)\<close>: the member with that value, else \<^verbatim>\<open>ValueError\<close>.\<close>

definition StepStatus_of :: "json \<Rightarrow> error + StepStatus" where
  "StepStatus_of v =
     (if v = JStr ''pending'' then Inr PENDING
      else if v = JStr ''in_progress'' then Inr IN_PROGRESS
      else if v = JStr ''completed'' then Inr COMPLETED
      else if v = JStr ''failed'' then Inr FAILED
      else if v = JStr ''skipped'' then Inr SKIPPED
      else Inl ValueError)"

text \<open>
  What the first two tests of \<^verbatim>\<open>_parse_version_from_task_id\<close> and its \<^verbatim>\<open>split\<close> do
  when \<^verbatim>\<open>data["task_id"]\<close> is not a \<^verbatim>\<open>str\<close>: a falsy value fails \<^verbatim>\<open>not task_id\<close>
  (\<^verbatim>\<open>ValueError\<close>); \<^verbatim>\<open>"-" not in task_id\<close> raises \<^verbatim>\<open>TypeError\<close> on a number or
  \<^verbatim>\<open>True\<close>; a list or dictionary that holds \<^verbatim>\<open>"-"\<close> passes both tests and has no
  \<^verbatim>\<open>split\<close> (\<^verbatim>\<open>AttributeError\<close>).  A \<^verbatim>\<open>str\<close> goes on to the typed function above.
\<close>

definition task_id_str :: "json \<Rightarrow> error + string" where
  "task_id_str v =
     (case v of
        JStr s \<Rightarrow> Inr s
      | JNull \<Rightarrow> Inl ValueError
      | JBool b \<Rightarrow> if b then Inl TypeError else Inl ValueError
      | JNum n \<Rightarrow> if n = 0 then Inl ValueError else Inl TypeError
      | JArr xs \<Rightarrow> if xs = [] \<or> JStr ''-'' \<notin> set xs then Inl ValueError else Inl AttributeError
      | JObj kvs \<Rightarrow>
          if kvs = [] \<or> ''-'' \<notin> set (map fst kvs) then Inl ValueError else Inl AttributeError)"

definition from_dict :: "json \<Rightarrow> error + step" where
  "from_dict data =
     (case py_get data ''validation'' (JObj []) of Inl e \<Rightarrow> Inl e | Inr validation \<Rightarrow>
     (case py_get validation ''status'' (JStr ''pending'') of Inl e \<Rightarrow> Inl e | Inr status_str \<Rightarrow>
     (case StepStatus_of status_str of Inl e \<Rightarrow> Inl e | Inr st \<Rightarrow>
     (case py_getitem data ''task_id'' of Inl e \<Rightarrow> Inl e | Inr tid \<Rightarrow>
     (case py_getitem data ''project_id'' of Inl e \<Rightarrow> Inl e | Inr pid \<Rightarrow>
     (case py_getitem data ''phase'' of Inl e \<Rightarrow> Inl e | Inr ph \<Rightarrow>
     (case py_getitem data ''description'' of Inl e \<Rightarrow> Inl e | Inr d \<Rightarrow>
     (case task_id_str tid of Inl e \<Rightarrow> Inl e | Inr s \<Rightarrow>
        new_Step s pid ph d st 0 0))))))))"

definition to_dict :: "step \<Rightarrow> json" where
  "to_dict s =
     JObj [(''taskId'', JStr (task_id s)),
           (''projectId'', project_id s),
           (''phase'', phase s),
           (''description'', description s),
           (''status'', JStr (status_value (status s))),
           (''majorVersion'', JNum (major_version s)),
           (''minorVersion'', JNum (minor_version s))]"

section \<open>adapters/json\_file\_repository.py\<close>

text \<open>
  The watched folder: its entries by file name, each with what \<^verbatim>\<open>open\<close> and
  \<^verbatim>\<open>json.load\<close> make of it.  \<open>Unreadable\<close>: \<^verbatim>\<open>open\<close> raises \<^verbatim>\<open>OSError\<close> (a directory,
  no permission).  \<open>NotJson\<close>: \<^verbatim>\<open>json.load\<close> raises \<^verbatim>\<open>JSONDecodeError\<close> (or the text is
  not UTF-8).  \<open>Json v\<close>: \<^verbatim>\<open>json.load\<close> returns \<open>v\<close>.
\<close>

datatype file_content = Unreadable | NotJson | Json json

type_synonym folder = "(string \<times> file_content) list"

definition read_step_file :: "folder \<Rightarrow> string \<Rightarrow> error + step option" where
  "read_step_file fs file_path =
     (case map_of fs file_path of
        None \<Rightarrow> Inl FileNotFoundError
      | Some Unreadable \<Rightarrow> Inl OSError
      | Some NotJson \<Rightarrow> Inr None
      | Some (Json data) \<Rightarrow>
          (case from_dict data of
             Inr s \<Rightarrow> Inr (Some s)
           | Inl e \<Rightarrow> if e = KeyError \<or> e = ValueError then Inr None else Inl e))"

text \<open>
  \<^verbatim>\<open>glob(folder / "*.json")\<close>: the entries whose name ends in \<^verbatim>\<open>.json\<close> and does not
  start with a dot, in the order the directory lists them.
\<close>

definition glob_json :: "folder \<Rightarrow> string list" where
  "glob_json fs = filter (\<lambda>n. endswith n ''.json'' \<and> take 1 n \<noteq> ''.'') (map fst fs)"

text \<open>The loop of \<^verbatim>\<open>get_all\<close>: the first exception of a read leaves the loop.\<close>

fun read_files :: "folder \<Rightarrow> string list \<Rightarrow> error + step list" where
  "read_files fs [] = Inr []"
| "read_files fs (file_path # rest) =
     (case read_step_file fs file_path of
        Inl e \<Rightarrow> Inl e
      | Inr r \<Rightarrow>
          (case read_files fs rest of
             Inl e \<Rightarrow> Inl e
           | Inr steps \<Rightarrow> Inr (case r of None \<Rightarrow> steps | Some s \<Rightarrow> s # steps)))"

definition get_all :: "folder \<Rightarrow> error + step list" where
  "get_all fs = read_files fs (glob_json fs)"

definition get_by_id :: "folder \<Rightarrow> string \<Rightarrow> error + step option" where
  "get_by_id fs tid =
     (case get_all fs of
        Inl e \<Rightarrow> Inl e
      | Inr steps \<Rightarrow> Inr (find (\<lambda>s. task_id s = tid) steps))"

definition refresh :: "folder \<Rightarrow> string \<Rightarrow> error + step option" where
  "refresh fs tid = get_by_id fs tid"

section \<open>domain/events.py\<close>

datatype FileEventType = CREATED | MODIFIED | DELETED

definition event_value :: "FileEventType \<Rightarrow> string" where
  "event_value t =
     (case t of CREATED \<Rightarrow> ''created'' | MODIFIED \<Rightarrow> ''modified'' | DELETED \<Rightarrow> ''deleted'')"

record file_event =
  event_type :: FileEventType
  file_path :: string

section \<open>adapters/watchdog\_file\_watcher.py\<close>

text \<open>
  A \<^verbatim>\<open>threading.Timer\<close> that was started runs its function once its interval has
  passed, unless \<^verbatim>\<open>cancel()\<close> was called on it before.  Every timer the handler
  creates is kept in the list \<open>timers\<close> and is known by its position there: the
  time at which it is due (time is a real number of seconds), the path and the event
  type that its closure \<^verbatim>\<open>fire_callback\<close> captured, whether it was cancelled and
  whether it has run.  The dictionary \<^verbatim>\<open>_pending_timers\<close> maps a path to a timer.
  \<open>fired\<close> lists the file events with which the callback was called, oldest first.
\<close>

record timer =
  due :: real
  timer_path :: string
  captured :: FileEventType
  cancelled :: bool
  ran :: bool

record debounced_event_handler =
  debounce_delay :: real
  pending_timers :: "string \<Rightarrow> nat option"
  timers :: "timer list"
  fired :: "file_event list"

definition new_handler :: "real \<Rightarrow> debounced_event_handler" where
  "new_handler delay =
     \<lparr>debounce_delay = delay, pending_timers = (\<lambda>p. None), timers = [], fired = []\<rparr>"

text \<open>\<^verbatim>\<open>Timer.cancel()\<close> on the timer at position \<open>i\<close>.\<close>

definition cancel :: "nat \<Rightarrow> debounced_event_handler \<Rightarrow> debounced_event_handler" where
  "cancel i h = h\<lparr>timers := (timers h)[i := (timers h ! i)\<lparr>cancelled := True\<rparr>]\<rparr>"

definition cancel_pending_timer ::
  "string \<Rightarrow> debounced_event_handler \<Rightarrow> debounced_event_handler" where
  "cancel_pending_timer fpath h =
     (case pending_timers h fpath of
        None \<Rightarrow> h
      | Some i \<Rightarrow>
          (let h1 = cancel i h
           in h1\<lparr>pending_timers := (pending_timers h1)(fpath := None)\<rparr>))"

text \<open>\<^verbatim>\<open>_schedule_callback\<close>, called at time \<open>now\<close>: the new timer is created, stored
  under its path and started.\<close>

definition schedule_callback ::
  "real \<Rightarrow> string \<Rightarrow> FileEventType \<Rightarrow> debounced_event_handler \<Rightarrow> debounced_event_handler" where
  "schedule_callback now fpath et h =
     (let h1 = cancel_pending_timer fpath h;
          t = \<lparr>due = now + debounce_delay h1, timer_path = fpath, captured = et,
               cancelled = False, ran = False\<rparr>;
          i = length (timers h1)
      in h1\<lparr>timers := timers h1 @ [t], pending_timers := (pending_timers h1)(fpath \<mapsto> i)\<rparr>)"

text \<open>
  The closure \<^verbatim>\<open>fire_callback\<close> of a timer created for the path \<open>fpath\<close> and \<open>et\<close>: it
  drops whatever entry the dictionary has for its path and calls the callback.
\<close>

definition fire_callback ::
  "string \<Rightarrow> FileEventType \<Rightarrow> debounced_event_handler \<Rightarrow> debounced_event_handler" where
  "fire_callback fpath et h =
     (let h1 = (if pending_timers h fpath \<noteq> None
                then h\<lparr>pending_timers := (pending_timers h)(fpath := None)\<rparr> else h)
      in h1\<lparr>fired := fired h1 @ [\<lparr>event_type = et, file_path = fpath\<rparr>]\<rparr>)"

text \<open>
  The timer at position \<open>i\<close> at time \<open>now\<close>: it runs its function if it is due, was
  not cancelled and has not run yet.
\<close>

definition run_timer :: "real \<Rightarrow> nat \<Rightarrow> debounced_event_handler \<Rightarrow> debounced_event_handler" where
  "run_timer now i h =
     (let t = timers h ! i in
      if \<not> cancelled t \<and> \<not> ran t \<and> due t \<le> now
      then fire_callback (timer_path t) (captured t)
             (h\<lparr>timers := (timers h)[i := t\<lparr>ran := True\<rparr>]\<rparr>)
      else h)"

text \<open>
  The passing of time up to \<open>now\<close>: every timer gets its turn, in the order of
  creation (with one delay for all timers this is the order in which they are due).
\<close>

definition elapse :: "real \<Rightarrow> debounced_event_handler \<Rightarrow> debounced_event_handler" where
  "elapse now h = fold (run_timer now) [0..<length (timers h)] h"

text \<open>A raw notification that reached \<^verbatim>\<open>_schedule_callback\<close>: when, which path, which kind.\<close>

record notification =
  arrival :: real
  path :: string
  kind :: FileEventType

definition notify :: "notification \<Rightarrow> debounced_event_handler \<Rightarrow> debounced_event_handler" where
  "notify n h = schedule_callback (arrival n) (path n) (kind n) (elapse (arrival n) h)"

fun notify_all :: "notification list \<Rightarrow> debounced_event_handler \<Rightarrow> debounced_event_handler" where
  "notify_all [] h = h"
| "notify_all (n # ns) h = notify_all ns (notify n h)"

text \<open>\<^verbatim>\<open>cancel_all_pending\<close>: every timer that the dictionary holds is cancelled, and
  the dictionary is cleared.\<close>

definition cancel_all_pending :: "debounced_event_handler \<Rightarrow> debounced_event_handler" where
  "cancel_all_pending h =
     h\<lparr>timers :=
         map (\<lambda>(i, t). if pending_timers h (timer_path t) = Some i
                        then t\<lparr>cancelled := True\<rparr> else t)
             (enumerate 0 (timers h)),
       pending_timers := (\<lambda>p. None)\<rparr>"

text \<open>
  The notifications of a burst on one path: in time order, each less than the quiet
  period after the one before.
\<close>

fun burst :: "real \<Rightarrow> notification list \<Rightarrow> bool" where
  "burst delay [] = True"
| "burst delay [n] = True"
| "burst delay (n # m # ns) = (arrival n \<le> arrival m \<and> arrival m - arrival n < delay \<and> burst delay (m # ns))"

text \<open>
  \<^verbatim>\<open>WatchdogFileWatcher\<close>.  \<open>observer\<close> is \<open>None\<close> or whether the observer thread is
  alive; the file system tells whether the folder exists and is a directory.
\<close>

record filesystem =
  path_exists :: bool
  path_is_dir :: bool
  files :: folder

record watchdog_file_watcher =
  watcher_delay :: real
  observer :: "bool option"
  handler :: "debounced_event_handler option"

definition is_running :: "watchdog_file_watcher \<Rightarrow> bool" where
  "is_running w = (observer w = Some True)"

definition watcher_start ::
  "filesystem \<Rightarrow> watchdog_file_watcher \<Rightarrow> (error + unit) \<times> watchdog_file_watcher" where
  "watcher_start fs w =
     (if is_running w then (Inl (RuntimeError ''File watcher is already running''), w)
      else if \<not> path_exists fs then (Inl FileNotFoundError, w)
      else if \<not> path_is_dir fs then (Inl NotADirectoryError, w)
      else (Inr (), w\<lparr>handler := Some (new_handler (watcher_delay w)), observer := Some True\<rparr>))"

definition watcher_stop :: "watchdog_file_watcher \<Rightarrow> watchdog_file_watcher" where
  "watcher_stop w =
     (if \<not> is_running w then w
      else
        let w1 = (case handler w of
                    None \<Rightarrow> w
                  | Some h \<Rightarrow> w\<lparr>handler := Some (cancel_all_pending h)\<rparr>);
            w2 = (if observer w1 \<noteq> None then w1\<lparr>observer := None\<rparr> else w1)
        in w2\<lparr>handler := None\<rparr>)"

section \<open>application/step\_service.py\<close>

text \<open>
  \<^verbatim>\<open>_steps_cache\<close> is a dictionary from task id to \<^verbatim>\<open>Step\<close>: an association list in
  insertion order, written with \<open>AList.update\<close> and \<open>AList.delete\<close> and read with
  \<open>map_of\<close>.  The callback is any callable; its type is a parameter.  The repository
  is the \<^verbatim>\<open>JsonFileRepository\<close> of the watched folder, so the operations that read it
  take the file system as it is at the time of the call.  Logging is left out.

  An operation that can raise after it has changed the service returns the
  exception or the result together with the service as it then is.
\<close>

record 'cb StepService =
  steps_cache :: "(string \<times> step) list"
  callback :: "'cb option"
  watching :: bool
  file_watcher :: watchdog_file_watcher

definition new_StepService :: "watchdog_file_watcher \<Rightarrow> 'cb StepService" where
  "new_StepService w = \<lparr>steps_cache = [], callback = None, watching = False, file_watcher = w\<rparr>"

text \<open>The dictionary comprehension \<^verbatim>\<open>{step.task_id: step for step in steps}\<close>.\<close>

definition dict_by_task_id :: "step list \<Rightarrow> (string \<times> step) list" where
  "dict_by_task_id steps = foldl (\<lambda>d st. AList.update (task_id st) st d) [] steps"

definition load_steps_into_cache ::
  "filesystem \<Rightarrow> 'cb StepService \<Rightarrow> (error + unit) \<times> 'cb StepService" where
  "load_steps_into_cache fs svc =
     (case get_all (files fs) of
        Inl e \<Rightarrow> (Inl e, svc)
      | Inr steps \<Rightarrow> (Inr (), svc\<lparr>steps_cache := dict_by_task_id steps\<rparr>))"

definition get_all_steps ::
  "filesystem \<Rightarrow> 'cb StepService \<Rightarrow> (error + step list) \<times> 'cb StepService" where
  "get_all_steps fs svc =
     (if steps_cache svc = [] then
        (case load_steps_into_cache fs svc of
           (Inl e, svc1) \<Rightarrow> (Inl e, svc1)
         | (Inr u, svc1) \<Rightarrow> (Inr (map snd (steps_cache svc1)), svc1))
      else (Inr (map snd (steps_cache svc)), svc))"

definition start_watching ::
  "filesystem \<Rightarrow> 'cb \<Rightarrow> 'cb StepService \<Rightarrow> (error + unit) \<times> 'cb StepService" where
  "start_watching fs cb svc =
     (if watching svc
      then (Inl (RuntimeError ''StepService is already watching for changes''), svc)
      else
        (case (if steps_cache svc = [] then load_steps_into_cache fs svc else (Inr (), svc)) of
           (Inl e, svc1) \<Rightarrow> (Inl e, svc1)
         | (Inr u, svc1) \<Rightarrow>
             (let svc2 = svc1\<lparr>callback := Some cb\<rparr> in
              (case watcher_start fs (file_watcher svc2) of
                 (Inl e, w) \<Rightarrow> (Inl e, svc2\<lparr>file_watcher := w\<rparr>)
               | (Inr v, w) \<Rightarrow> (Inr (), svc2\<lparr>file_watcher := w, watching := True\<rparr>)))))"

definition stop_watching :: "'cb StepService \<Rightarrow> 'cb StepService" where
  "stop_watching svc =
     (if \<not> watching svc then svc
      else svc\<lparr>file_watcher := watcher_stop (file_watcher svc), watching := False,
               callback := None\<rparr>)"

text \<open>\<^verbatim>\<open>os.path.basename\<close> on POSIX: what follows the last slash.\<close>

definition basename :: "string \<Rightarrow> string" where
  "basename p = rev (takeWhile (\<lambda>c. c \<noteq> CHR ''/'') (rev p))"

text \<open>
  \<^verbatim>\<open>re.match(r"^\d{2}-\d{2}$", filename)\<close>: two digits, a hyphen, two digits, and then
  the end of the string or one newline before it (\<^verbatim>\<open>$\<close> matches there too).
\<close>

definition re_match_task_id :: "string \<Rightarrow> bool" where
  "re_match_task_id f =
     (case f of
        [a, b, h, c, d] \<Rightarrow>
          is_digit a \<and> is_digit b \<and> h = CHR ''-'' \<and> is_digit c \<and> is_digit d
      | [a, b, h, c, d, n] \<Rightarrow>
          is_digit a \<and> is_digit b \<and> h = CHR ''-'' \<and> is_digit c \<and> is_digit d \<and> n = CHR 0x0A
      | _ \<Rightarrow> False)"

definition extract_task_id_from_path :: "string \<Rightarrow> string option" where
  "extract_task_id_from_path p =
     (let filename = basename p;
          filename = (if endswith filename ''.json''
                      then take (length filename - 5) filename else filename)
      in if re_match_task_id filename then Some filename else None)"

text \<open>
  \<^verbatim>\<open>_handle_file_event\<close>.  The result is the call it makes of the registered callback,
  if any: the callback, the event type's string and the step passed to it.
\<close>

definition invoke_callback ::
  "'cb StepService \<Rightarrow> string \<Rightarrow> step option \<Rightarrow> ('cb \<times> string \<times> step option) option" where
  "invoke_callback svc et st =
     (case callback svc of None \<Rightarrow> None | Some cb \<Rightarrow> Some (cb, et, st))"

definition handle_file_event ::
  "filesystem \<Rightarrow> file_event \<Rightarrow> 'cb StepService \<Rightarrow>
     (error + ('cb \<times> string \<times> step option) option) \<times> 'cb StepService" where
  "handle_file_event fs fe svc =
     (case extract_task_id_from_path (file_path fe) of
        None \<Rightarrow> (Inr None, svc)
      | Some tid \<Rightarrow>
          (let et = event_value (event_type fe) in
           if event_type fe = DELETED then
             (let st = map_of (steps_cache svc) tid;
                  svc1 = svc\<lparr>steps_cache := AList.delete tid (steps_cache svc)\<rparr>
              in (Inr (invoke_callback svc1 et st), svc1))
           else
             (case refresh (files fs) tid of
                Inl e \<Rightarrow> (Inl e, svc)
              | Inr None \<Rightarrow> (Inr (invoke_callback svc et None), svc)
              | Inr (Some st) \<Rightarrow>
                  (let svc1 = svc\<lparr>steps_cache := AList.update tid st (steps_cache svc)\<rparr>
                   in (Inr (invoke_callback svc1 et (Some st)), svc1)))))"

section \<open>application/connection\_manager.py\<close>

text \<open>
  \<^verbatim>\<open>json.dumps\<close> with its defaults (\<^verbatim>\<open>ensure_ascii\<close>, separators \<^verbatim>\<open>", "\<close> and
  \<^verbatim>\<open>": "\<close>), on ASCII text.
\<close>

fun show_nat :: "nat \<Rightarrow> string" where
  "show_nat n =
     (if n < 10 then [''0123456789'' ! n]
      else show_nat (n div 10) @ [''0123456789'' ! (n mod 10)])"

definition show_int :: "int \<Rightarrow> string" where
  "show_int i = (if i < 0 then CHR ''-'' # show_nat (nat (- i)) else show_nat (nat i))"

definition hex2 :: "nat \<Rightarrow> string" where
  "hex2 n = [''0123456789abcdef'' ! (n div 16 mod 16), ''0123456789abcdef'' ! (n mod 16)]"

definition escape_char :: "char \<Rightarrow> string" where
  "escape_char c =
     (if c = CHR 0x22 then [CHR 0x5C, CHR 0x22]
      else if c = CHR 0x5C then [CHR 0x5C, CHR 0x5C]
      else if c = CHR 0x0A then [CHR 0x5C, CHR ''n'']
      else if c = CHR 0x0D then [CHR 0x5C, CHR ''r'']
      else if c = CHR 0x09 then [CHR 0x5C, CHR ''t'']
      else if c = CHR 0x08 then [CHR 0x5C, CHR ''b'']
      else if c = CHR 0x0C then [CHR 0x5C, CHR ''f'']
      else if (of_char c :: nat) < 32 \<or> 126 < (of_char c :: nat)
        then [CHR 0x5C, CHR ''u'', CHR ''0'', CHR ''0''] @ hex2 (of_char c)
      else [c])"

definition quote :: "string \<Rightarrow> string" where
  "quote s = CHR 0x22 # concat (map escape_char s) @ [CHR 0x22]"

fun join :: "string \<Rightarrow> string list \<Rightarrow> string" where
  "join sep [] = []"
| "join sep [x] = x"
| "join sep (x # y # ys) = x @ sep @ join sep (y # ys)"

fun json_dumps :: "json \<Rightarrow> string" where
  "json_dumps JNull = ''null''"
| "json_dumps (JBool b) = (if b then ''true'' else ''false'')"
| "json_dumps (JNum n) = show_int n"
| "json_dumps (JStr s) = quote s"
| "json_dumps (JArr xs) = ''['' @ join '', '' (map json_dumps xs) @ '']''"
| "json_dumps (JObj kvs) =
     ''{'' @ join '', '' (map (\<lambda>kv. quote (fst kv) @ '': '' @ json_dumps (snd kv)) kvs) @ ''}''"

text \<open>
  A websocket is known by its identity (type \<open>'ws\<close>).  What a call does to the outside is
  returned as a list of effects: a call of \<^verbatim>\<open>json.dumps\<close> on a message, and a call of
  \<^verbatim>\<open>send_text\<close> on a websocket with a text.  Whether a send succeeds or raises is given
  by \<open>ok\<close>.
\<close>

datatype 'ws effect = Dumps json | SendText 'ws string

record 'ws ConnectionManager =
  active_connections :: "'ws list"

text \<open>\<^verbatim>\<open>connect\<close>, for a handshake that \<^verbatim>\<open>accept\<close> completed.\<close>

definition connect :: "'ws \<Rightarrow> 'ws ConnectionManager \<Rightarrow> 'ws ConnectionManager" where
  "connect ws cm = cm\<lparr>active_connections := active_connections cm @ [ws]\<rparr>"

definition disconnect :: "'ws \<Rightarrow> 'ws ConnectionManager \<Rightarrow> 'ws ConnectionManager" where
  "disconnect ws cm =
     (if ws \<in> set (active_connections cm)
      then cm\<lparr>active_connections := remove1 ws (active_connections cm)\<rparr>
      else cm)"

text \<open>
  The first loop of \<^verbatim>\<open>broadcast\<close>, over the connections that are left to visit: the
  sends it makes and the clients it appends to \<^verbatim>\<open>disconnected_clients\<close>.
\<close>

fun send_loop :: "('ws \<Rightarrow> bool) \<Rightarrow> string \<Rightarrow> 'ws list \<Rightarrow> 'ws effect list \<times> 'ws list" where
  "send_loop ok json_message [] = ([], [])"
| "send_loop ok json_message (connection # rest) =
     (let (effs, disconnected) = send_loop ok json_message rest
      in (SendText connection json_message # effs,
          if ok connection then disconnected else connection # disconnected))"

text \<open>The second loop of \<^verbatim>\<open>broadcast\<close>, over \<^verbatim>\<open>disconnected_clients\<close>.\<close>

fun remove_loop :: "'ws list \<Rightarrow> 'ws list \<Rightarrow> 'ws list" where
  "remove_loop [] conns = conns"
| "remove_loop (client # rest) conns =
     remove_loop rest (if client \<in> set conns then remove1 client conns else conns)"

definition broadcast ::
  "('ws \<Rightarrow> bool) \<Rightarrow> json \<Rightarrow> 'ws ConnectionManager \<Rightarrow> 'ws ConnectionManager \<times> 'ws effect list" where
  "broadcast ok message cm =
     (let json_message = json_dumps message;
          (effs, disconnected_clients) = send_loop ok json_message (active_connections cm)
      in (cm\<lparr>active_connections := remove_loop disconnected_clients (active_connections cm)\<rparr>,
          Dumps message # effs))"

definition send_personal :: "('ws \<Rightarrow> bool) \<Rightarrow> 'ws \<Rightarrow> json \<Rightarrow> (error + unit) \<times> 'ws effect list" where
  "send_personal ok ws message =
     (let json_message = json_dumps message
      in (if ok ws then Inr () else Inl SendError,
          [Dumps message, SendText ws json_message]))"

section \<open>main.py\<close>

text \<open>
  The globals of \<^verbatim>\<open>main.py\<close>: the connection manager, the step service (\<open>None\<close> until
  the lifespan has created it) and whether \<^verbatim>\<open>main_event_loop\<close> is set and running.
  The callback that \<^verbatim>\<open>lifespan\<close> registers is \<^verbatim>\<open>on_file_change\<close>.  A coroutine is
  modelled as running to its end once it runs: nothing else touches the connection
  list between the steps of one \<^verbatim>\<open>broadcast\<close> or between \<^verbatim>\<open>connect\<close> and the send
  of the init message.
\<close>

datatype main_callback = On_file_change

record 'ws server =
  connection_manager :: "'ws ConnectionManager"
  step_service :: "main_callback StepService option"
  main_event_loop :: bool

definition remove_message :: "step \<Rightarrow> json" where
  "remove_message st = JObj [(''type'', JStr ''remove''), (''taskId'', JStr (task_id st))]"

definition update_message :: "step \<Rightarrow> json" where
  "update_message st = JObj [(''type'', JStr ''update''), (''step'', to_dict st)]"

definition init_message :: "step list \<Rightarrow> json" where
  "init_message steps = JObj [(''type'', JStr ''init''), (''steps'', JArr (map to_dict steps))]"

definition handle_step_update ::
  "('ws \<Rightarrow> bool) \<Rightarrow> string \<Rightarrow> step option \<Rightarrow> 'ws server \<Rightarrow> 'ws server \<times> 'ws effect list" where
  "handle_step_update ok et st srv =
     (case (if et = ''deleted'' \<and> st \<noteq> None then Some (remove_message (the st))
            else if st \<noteq> None then Some (update_message (the st))
            else None) of
        None \<Rightarrow> (srv, [])
      | Some message \<Rightarrow>
          (let (cm, effs) = broadcast ok message (connection_manager srv)
           in (srv\<lparr>connection_manager := cm\<rparr>, effs)))"

definition on_file_change ::
  "('ws \<Rightarrow> bool) \<Rightarrow> string \<Rightarrow> step option \<Rightarrow> 'ws server \<Rightarrow> 'ws server \<times> 'ws effect list" where
  "on_file_change ok et st srv =
     (if main_event_loop srv then handle_step_update ok et st srv else (srv, []))"

text \<open>
  A debounced file event reaching the service that \<^verbatim>\<open>lifespan\<close> created: the service
  handles it and calls its callback, which is \<^verbatim>\<open>on_file_change\<close>.
\<close>

definition file_event_pipeline ::
  "('ws \<Rightarrow> bool) \<Rightarrow> filesystem \<Rightarrow> file_event \<Rightarrow> 'ws server \<Rightarrow>
     (error + unit) \<times> 'ws server \<times> 'ws effect list" where
  "file_event_pipeline ok fs fe srv =
     (case step_service srv of
        None \<Rightarrow> (Inr (), srv, [])
      | Some svc \<Rightarrow>
          (case handle_file_event fs fe svc of
             (Inl e, svc1) \<Rightarrow> (Inl e, srv\<lparr>step_service := Some svc1\<rparr>, [])
           | (Inr None, svc1) \<Rightarrow> (Inr (), srv\<lparr>step_service := Some svc1\<rparr>, [])
           | (Inr (Some (On_file_change, et, st)), svc1) \<Rightarrow>
               (let (srv1, effs) = on_file_change ok et st (srv\<lparr>step_service := Some svc1\<rparr>)
                in (Inr (), srv1, effs))))"

text \<open>
  \<^verbatim>\<open>websocket_endpoint\<close> up to its receive loop, for a handshake that \<^verbatim>\<open>accept\<close>
  completed; and what it does when the receive loop ends (\<^verbatim>\<open>WebSocketDisconnect\<close> or
  any other exception).
\<close>

definition websocket_endpoint_open ::
  "('ws \<Rightarrow> bool) \<Rightarrow> filesystem \<Rightarrow> 'ws \<Rightarrow> 'ws server \<Rightarrow> 'ws server \<times> 'ws effect list" where
  "websocket_endpoint_open ok fs ws srv =
     (let srv1 = srv\<lparr>connection_manager := connect ws (connection_manager srv)\<rparr> in
      case step_service srv1 of
        None \<Rightarrow> (srv1, [])
      | Some svc \<Rightarrow>
          (case get_all_steps fs svc of
             (Inl e, svc1) \<Rightarrow>
               (srv1\<lparr>step_service := Some svc1,
                      connection_manager := disconnect ws (connection_manager srv1)\<rparr>, [])
           | (Inr steps, svc1) \<Rightarrow>
               (case send_personal ok ws (init_message steps) of
                  (Inl e, effs) \<Rightarrow>
                    (srv1\<lparr>step_service := Some svc1,
                           connection_manager := disconnect ws (connection_manager srv1)\<rparr>, effs)
                | (Inr u, effs) \<Rightarrow> (srv1\<lparr>step_service := Some svc1\<rparr>, effs))))"

definition websocket_endpoint_close :: "'ws \<Rightarrow> 'ws server \<Rightarrow> 'ws server" where
  "websocket_endpoint_close ws srv =
     srv\<lparr>connection_manager := disconnect ws (connection_manager srv)\<rparr>"

text \<open>
  What happens on the event loop, one coroutine at a time: a client opens a
  connection, a connection ends, or \<^verbatim>\<open>handle_step_update\<close> runs for a transition.
  \<open>run\<close> collects the effects in order.
\<close>

datatype 'ws op =
    Open 'ws filesystem "'ws \<Rightarrow> bool"
  | Close 'ws
  | Step_update string "step option" "'ws \<Rightarrow> bool"

fun exec :: "'ws op \<Rightarrow> 'ws server \<Rightarrow> 'ws server \<times> 'ws effect list" where
  "exec (Open ws fs ok) srv = websocket_endpoint_open ok fs ws srv"
| "exec (Close ws) srv = (websocket_endpoint_close ws srv, [])"
| "exec (Step_update et st ok) srv = handle_step_update ok et st srv"

fun run :: "'ws op list \<Rightarrow> 'ws server \<Rightarrow> 'ws server \<times> 'ws effect list" where
  "run [] srv = (srv, [])"
| "run (x # xs) srv =
     (let (srv1, effs1) = exec x srv; (srv2, effs2) = run xs srv1 in (srv2, effs1 @ effs2))"

text \<open>The texts sent to one websocket, in order.\<close>

definition frames :: "'ws \<Rightarrow> 'ws effect list \<Rightarrow> string list" where
  "frames ws effs = concat (map (\<lambda>e. case e of SendText w txt \<Rightarrow> if w = ws then [txt] else [] | Dumps m \<Rightarrow> []) effs)"

text \<open>The messages of the transitions that a list of operations broadcasts.\<close>

fun transition_message :: "string \<Rightarrow> step \<Rightarrow> json" where
  "transition_message et st = (if et = ''deleted'' then remove_message st else update_message st)"

fun broadcasts :: "'ws op list \<Rightarrow> json list" where
  "broadcasts [] = []"
| "broadcasts (Step_update et (Some st) ok # xs) = transition_message et st # broadcasts xs"
| "broadcasts (x # xs) = broadcasts xs"

text \<open>An operation that leaves the connection of \<open>ws\<close> alone: it is not opened again,
  not closed, and no send to it fails.\<close>

fun keeps :: "'ws \<Rightarrow> 'ws op \<Rightarrow> bool" where
  "keeps ws (Open w fs ok) = (w \<noteq> ws)"
| "keeps ws (Close w) = (w \<noteq> ws)"
| "keeps ws (Step_update et st ok) = ok ws"

section \<open>The handler seen from one path\<close>

text \<open>
  A timer that can still run; the well-formedness of a handler (the dictionary
  holds, for each path, exactly the timer of that path that can still run); the
  timer that is pending for a path, as its due time and event type; the callbacks
  made for a path; and two handlers that look the same from a path.
\<close>

definition live :: "timer \<Rightarrow> bool" where
  "live t = (\<not> cancelled t \<and> \<not> ran t)"

definition handler_inv :: "debounced_event_handler \<Rightarrow> bool" where
  "handler_inv h =
     ((\<forall>i < length (timers h).
         live (timers h ! i) \<longrightarrow> pending_timers h (timer_path (timers h ! i)) = Some i)
      \<and> (\<forall>q i. pending_timers h q = Some i \<longrightarrow>
            i < length (timers h) \<and> timer_path (timers h ! i) = q \<and> live (timers h ! i)))"

definition waiting :: "debounced_event_handler \<Rightarrow> string \<Rightarrow> (real \<times> FileEventType) option" where
  "waiting h p =
     map_option (\<lambda>i. (due (timers h ! i), captured (timers h ! i))) (pending_timers h p)"

text \<open>The callback that path \<open>p\<close> gets when the timers at the positions \<open>is\<close> have
  their turn at time \<open>now\<close>: that of its pending timer, if that is among them and due.\<close>

definition expiry ::
  "real \<Rightarrow> nat list \<Rightarrow> debounced_event_handler \<Rightarrow> string \<Rightarrow> file_event list" where
  "expiry now is h p =
     (case pending_timers h p of
        None \<Rightarrow> []
      | Some i \<Rightarrow>
          if i \<in> set is \<and> due (timers h ! i) \<le> now
          then [\<lparr>event_type = captured (timers h ! i), file_path = p\<rparr>] else [])"

definition calls :: "debounced_event_handler \<Rightarrow> string \<Rightarrow> file_event list" where
  "calls h p = filter (\<lambda>e. file_path e = p) (fired h)"

definition agree_on ::
  "string \<Rightarrow> debounced_event_handler \<Rightarrow> debounced_event_handler \<Rightarrow> bool" where
  "agree_on p h h' =
     (waiting h p = waiting h' p \<and> calls h p = calls h' p
      \<and> debounce_delay h = debounce_delay h')"

section \<open>A connection that is registered once\<close>

text \<open>The websocket \<open>c\<close> occurs exactly once in the list of active connections.\<close>

definition registered_once :: "'ws \<Rightarrow> 'ws server \<Rightarrow> bool" where
  "registered_once c srv = (count_list (active_connections (connection_manager srv)) c = 1)"

section \<open>The cache invariant\<close>

text \<open>Every key of \<^verbatim>\<open>_steps_cache\<close> is the \<^verbatim>\<open>task_id\<close> of the step stored under it.\<close>

definition cache_keyed :: "'cb StepService \<Rightarrow> bool" where
  "cache_keyed svc = list_all (\<lambda>kv. task_id (snd kv) = fst kv) (steps_cache svc)"

section \<open>Concrete inputs\<close>

definition example_json :: json where
  "example_json =
     JObj [(''task_id'', JStr ''01-01''), (''project_id'', JStr ''demo''),
           (''phase'', JStr ''build''), (''description'', JStr ''compile''),
           (''validation'', JObj [(''status'', JStr ''completed'')])]"

definition example_step :: step where
  "example_step =
     \<lparr>task_id = ''01-01'', project_id = JStr ''demo'', phase = JStr ''build'',
      description = JStr ''compile'', status = COMPLETED,
      major_version = 1, minor_version = 1\<rparr>"

definition example_fs :: filesystem where
  "example_fs =
     \<lparr>path_exists = True, path_is_dir = True,
      files = [(''01-01.json'', Json example_json), (''notes.json'', NotJson)]\<rparr>"

definition example_watcher :: watchdog_file_watcher where
  "example_watcher =
     \<lparr>watcher_delay = 1 / 10, observer = Some True, handler = Some (new_handler (1 / 10))\<rparr>"

definition example_service :: "main_callback StepService" where
  "example_service =
     \<lparr>steps_cache = [(''01-01'', example_step)], callback = Some On_file_change,
      watching = True, file_watcher = example_watcher\<rparr>"

definition example_server :: "nat server" where
  "example_server =
     \<lparr>connection_manager = \<lparr>active_connections = [1, 2, 3]\<rparr>,
      step_service = Some example_service, main_event_loop = True\<rparr>"

text \<open>
  A server whose lifespan started on an empty folder, so that the cache is empty,
  and the folder as it is once a valid step file and a file holding \<^verbatim>\<open>[]\<close> have
  been written to it.
\<close>

definition idle_watcher :: watchdog_file_watcher where
  "idle_watcher = \<lparr>watcher_delay = 1 / 10, observer = None, handler = None\<rparr>"

definition empty_fs :: filesystem where
  "empty_fs = \<lparr>path_exists = True, path_is_dir = True, files = []\<rparr>"

definition started_service :: "main_callback StepService" where
  "started_service = snd (start_watching empty_fs On_file_change (new_StepService idle_watcher))"

definition serving :: "nat server" where
  "serving =
     \<lparr>connection_manager = \<lparr>active_connections = []\<rparr>,
      step_service = Some started_service, main_event_loop = True\<rparr>"

text \<open>Three notifications on one path, 50 and 70 milliseconds apart, and one on
  another path in between.\<close>

definition example_notifications :: "notification list" where
  "example_notifications =
     [\<lparr>arrival = 0, path = ''/steps/01-01.json'', kind = CREATED\<rparr>,
      \<lparr>arrival = 3 / 100, path = ''/steps/01-02.json'', kind = MODIFIED\<rparr>,
      \<lparr>arrival = 5 / 100, path = ''/steps/01-01.json'', kind = MODIFIED\<rparr>,
      \<lparr>arrival = 12 / 100, path = ''/steps/01-01.json'', kind = DELETED\<rparr>]"

text \<open>A folder with a valid step file and a file that holds the JSON array \<^verbatim>\<open>[]\<close>.\<close>

definition broken_folder :: folder where
  "broken_folder = [(''01-01.json'', Json example_json), (''01-02.json'', Json (JArr []))]"

definition broken_fs :: filesystem where
  "broken_fs = \<lparr>path_exists = True, path_is_dir = True, files = broken_folder\<rparr>"

section \<open>Facts about the concrete inputs\<close>

lemma example_extract: "extract_task_id_from_path ''/steps/09-09.json'' = Some ''09-09''"
  by (simp add: extract_task_id_from_path_def basename_def endswith_def re_match_task_id_def
      is_digit_def)

lemma example_extract_known: "extract_task_id_from_path ''/steps/01-01.json'' = Some ''01-01''"
  by (simp add: extract_task_id_from_path_def basename_def endswith_def re_match_task_id_def
      is_digit_def)

lemma example_from_dict: "from_dict example_json = Inr example_step"
  by code_simp

lemma example_refresh: "refresh (files example_fs) ''01-01'' = Inr (Some example_step)"
  by code_simp

lemma example_refresh_missing: "refresh (files example_fs) ''09-09'' = Inr None"
  by code_simp

section \<open>Constructing a step\<close>















section \<open>Reading the folder\<close>

text \<open>
  Claim C3 at a failing input.  The folder holds a valid step file and a file whose
  content is the JSON array \<^verbatim>\<open>[]\<close>.  \<^verbatim>\<open>json.load\<close> succeeds on the second file and
  \<^verbatim>\<open>Step.from_dict\<close> calls \<^verbatim>\<open>data.get\<close> on a list: the \<^verbatim>\<open>AttributeError\<close> is not among
  the exceptions \<^verbatim>\<open>_read_step_file\<close> catches, so it leaves \<^verbatim>\<open>_read_step_file\<close> and ends
  \<^verbatim>\<open>get_all\<close>, which returns no step at all.  Without the second file \<^verbatim>\<open>get_all\<close>
  returns the valid step.
\<close>

theorem malformed_member_aborts_batch:
  "read_step_file broken_folder ''01-02.json'' = Inl AttributeError
   \<and> get_all broken_folder = Inl AttributeError
   \<and> get_all [(''01-01.json'', Json example_json)] = Inr [example_step]"
  by code_simp

section \<open>Debouncing\<close>

lemma inv_new: "handler_inv (new_handler d)"
  by (simp add: handler_inv_def new_handler_def)

lemma view_new:
  "waiting (new_handler d) p = None" "calls (new_handler d) p = []"
  "debounce_delay (new_handler d) = d"
  by (simp_all add: waiting_def calls_def new_handler_def)

lemma handler_invI:
  assumes "\<And>i. i < length (timers h) \<Longrightarrow> live (timers h ! i) \<Longrightarrow>
             pending_timers h (timer_path (timers h ! i)) = Some i"
    and "\<And>q i. pending_timers h q = Some i \<Longrightarrow>
             i < length (timers h) \<and> timer_path (timers h ! i) = q \<and> live (timers h ! i)"
  shows "handler_inv h"
  unfolding handler_inv_def using assms by blast

lemma handler_invD1:
  "handler_inv h \<Longrightarrow> i < length (timers h) \<Longrightarrow> live (timers h ! i) \<Longrightarrow>
   pending_timers h (timer_path (timers h ! i)) = Some i"
  unfolding handler_inv_def by blast

lemma handler_invD2:
  "handler_inv h \<Longrightarrow> pending_timers h q = Some i \<Longrightarrow>
   i < length (timers h) \<and> timer_path (timers h ! i) = q \<and> live (timers h ! i)"
  unfolding handler_inv_def by blast

lemma cancel_pending_timer_None:
  "pending_timers h q = None \<Longrightarrow> cancel_pending_timer q h = h"
  by (simp add: cancel_pending_timer_def)

lemma cancel_pending_timer_Some:
  "pending_timers h q = Some i \<Longrightarrow>
   cancel_pending_timer q h =
     h\<lparr>timers := (timers h)[i := (timers h ! i)\<lparr>cancelled := True\<rparr>],
       pending_timers := (pending_timers h)(q := None)\<rparr>"
  by (simp add: cancel_pending_timer_def cancel_def Let_def)

lemma cancel_pending_timer_inv:
  assumes "handler_inv h"
  shows "handler_inv (cancel_pending_timer q h)"
proof (cases "pending_timers h q")
  case None
  with assms show ?thesis by (simp add: cancel_pending_timer_None)
next
  case (Some i)
  note qi = handler_invD2[OF assms Some]
  let ?h = "h\<lparr>timers := (timers h)[i := (timers h ! i)\<lparr>cancelled := True\<rparr>],
       pending_timers := (pending_timers h)(q := None)\<rparr>"
  have "handler_inv ?h"
  proof (rule handler_invI)
    fix j assume j: "j < length (timers ?h)" and l: "live (timers ?h ! j)"
    have ji: "j \<noteq> i" using l qi by (auto simp: live_def)
    then have same: "timers ?h ! j = timers h ! j" by simp
    with j l have p: "pending_timers h (timer_path (timers h ! j)) = Some j"
      using handler_invD1[OF assms, of j] by simp
    with Some ji have "timer_path (timers h ! j) \<noteq> q" by auto
    with p same show "pending_timers ?h (timer_path (timers ?h ! j)) = Some j" by simp
  next
    fix r j assume "pending_timers ?h r = Some j"
    then have r: "r \<noteq> q" and p: "pending_timers h r = Some j" by (auto split: if_splits)
    note rj = handler_invD2[OF assms p]
    with qi r have "j \<noteq> i" by auto
    with rj show "j < length (timers ?h) \<and> timer_path (timers ?h ! j) = r \<and> live (timers ?h ! j)"
      by simp
  qed
  with Some show ?thesis by (simp add: cancel_pending_timer_Some)
qed

lemma cancel_pending_timer_facts:
  "pending_timers (cancel_pending_timer q h) = (pending_timers h)(q := None)"
  "length (timers (cancel_pending_timer q h)) = length (timers h)"
  "fired (cancel_pending_timer q h) = fired h"
  "debounce_delay (cancel_pending_timer q h) = debounce_delay h"
  by (cases "pending_timers h q"; auto simp: cancel_pending_timer_None cancel_pending_timer_Some)+

lemma cancel_pending_timer_waiting:
  assumes "handler_inv h" and "r \<noteq> q"
  shows "waiting (cancel_pending_timer q h) r = waiting h r"
proof (cases "pending_timers h q")
  case None
  then show ?thesis by (simp add: cancel_pending_timer_None)
next
  case (Some i)
  note qi = handler_invD2[OF assms(1) Some]
  show ?thesis
  proof (cases "pending_timers h r")
    case None
    with Some assms(2) show ?thesis by (simp add: waiting_def cancel_pending_timer_Some)
  next
    case (Some j)
    note rj = handler_invD2[OF assms(1) Some]
    with qi assms(2) have "j \<noteq> i" by auto
    with Some \<open>pending_timers h q = Some i\<close> assms(2) show ?thesis
      by (simp add: waiting_def cancel_pending_timer_Some)
  qed
qed


lemma schedule_callback_eq:
  "schedule_callback now q et h =
     (cancel_pending_timer q h)
       \<lparr>timers := timers (cancel_pending_timer q h) @
          [\<lparr>due = now + debounce_delay h, timer_path = q, captured = et,
            cancelled = False, ran = False\<rparr>],
        pending_timers := (pending_timers h)(q \<mapsto> length (timers h))\<rparr>"
  by (simp add: schedule_callback_def Let_def cancel_pending_timer_facts)

lemma schedule_inv:
  assumes "handler_inv h"
  shows "handler_inv (schedule_callback now q et h)"
proof -
  let ?h1 = "cancel_pending_timer q h"
  let ?t = "\<lparr>due = now + debounce_delay h, timer_path = q, captured = et,
            cancelled = False, ran = False\<rparr>"
  let ?h2 = "?h1\<lparr>timers := timers ?h1 @ [?t],
        pending_timers := (pending_timers h)(q \<mapsto> length (timers h))\<rparr>"
  have inv1: "handler_inv ?h1" by (rule cancel_pending_timer_inv[OF assms])
  have p1: "pending_timers ?h1 = (pending_timers h)(q := None)"
    and n1: "length (timers ?h1) = length (timers h)"
    by (rule cancel_pending_timer_facts)+
  have "handler_inv ?h2"
  proof (rule handler_invI)
    fix j assume j: "j < length (timers ?h2)" and l: "live (timers ?h2 ! j)"
    show "pending_timers ?h2 (timer_path (timers ?h2 ! j)) = Some j"
    proof (cases "j = length (timers h)")
      case True
      then show ?thesis by (simp add: n1 nth_append)
    next
      case False
      with j have jl: "j < length (timers ?h1)" by (simp add: n1)
      then have same: "timers ?h2 ! j = timers ?h1 ! j" by (simp add: nth_append)
      with l have "pending_timers ?h1 (timer_path (timers ?h1 ! j)) = Some j"
        using handler_invD1[OF inv1 jl] by simp
      then have "timer_path (timers ?h1 ! j) \<noteq> q
          \<and> pending_timers h (timer_path (timers ?h1 ! j)) = Some j"
        unfolding p1 by (auto split: if_splits)
      with same show ?thesis by simp
    qed
  next
    fix r j assume pj: "pending_timers ?h2 r = Some j"
    show "j < length (timers ?h2) \<and> timer_path (timers ?h2 ! j) = r \<and> live (timers ?h2 ! j)"
    proof (cases "r = q")
      case True
      with pj have "j = length (timers h)" by simp
      with True show ?thesis by (simp add: n1 nth_append live_def)
    next
      case False
      with pj have "pending_timers ?h1 r = Some j" by (simp add: p1)
      from handler_invD2[OF inv1 this] show ?thesis by (simp add: nth_append)
    qed
  qed
  then show ?thesis by (simp add: schedule_callback_eq)
qed

lemma schedule_waiting:
  assumes "handler_inv h"
  shows "waiting (schedule_callback now q et h) p =
           (if p = q then Some (now + debounce_delay h, et) else waiting h p)"
proof (cases "p = q")
  case True
  then show ?thesis
    by (simp add: waiting_def schedule_callback_eq cancel_pending_timer_facts nth_append)
next
  case False
  let ?h1 = "cancel_pending_timer q h"
  have n1: "length (timers ?h1) = length (timers h)"
    by (rule cancel_pending_timer_facts)
  have w1: "waiting ?h1 p = waiting h p"
    by (rule cancel_pending_timer_waiting[OF assms False])
  have p1: "pending_timers ?h1 p = pending_timers h p"
    using False by (simp add: cancel_pending_timer_facts)
  have "waiting (schedule_callback now q et h) p = waiting ?h1 p"
  proof (cases "pending_timers h p")
    case None
    with False p1 show ?thesis by (simp add: waiting_def schedule_callback_eq)
  next
    case (Some j)
    from handler_invD2[OF assms Some] have "j < length (timers ?h1)" by (simp add: n1)
    with Some False p1 show ?thesis
      by (simp add: waiting_def schedule_callback_eq nth_append)
  qed
  with w1 False show ?thesis by simp
qed

lemma schedule_calls: "calls (schedule_callback now q et h) p = calls h p"
  by (simp add: calls_def schedule_callback_eq cancel_pending_timer_facts)

lemma schedule_delay: "debounce_delay (schedule_callback now q et h) = debounce_delay h"
  by (simp add: schedule_callback_eq cancel_pending_timer_facts)

lemma run_timer_idle:
  "\<not> (live (timers h ! i) \<and> due (timers h ! i) \<le> now) \<Longrightarrow> run_timer now i h = h"
  by (auto simp: run_timer_def Let_def live_def)

lemma run_timer_fires:
  assumes "handler_inv h" and "i < length (timers h)"
    and "live (timers h ! i)" and "due (timers h ! i) \<le> now"
  shows "run_timer now i h =
     h\<lparr>timers := (timers h)[i := (timers h ! i)\<lparr>ran := True\<rparr>],
       pending_timers := (pending_timers h)(timer_path (timers h ! i) := None),
       fired := fired h @ [\<lparr>event_type = captured (timers h ! i),
                            file_path = timer_path (timers h ! i)\<rparr>]\<rparr>"
proof -
  have "pending_timers h (timer_path (timers h ! i)) = Some i"
    by (rule handler_invD1[OF assms(1,2,3)])
  with assms(3,4) show ?thesis
    by (simp add: run_timer_def Let_def live_def fire_callback_def)
qed


lemma run_timer_step:
  assumes "handler_inv h" and "i < length (timers h)"
  shows "handler_inv (run_timer now i h)"
    and "length (timers (run_timer now i h)) = length (timers h)"
    and "debounce_delay (run_timer now i h) = debounce_delay h"
    and "due (timers (run_timer now i h) ! j) = due (timers h ! j)"
    and "captured (timers (run_timer now i h) ! j) = captured (timers h ! j)"
    and "pending_timers (run_timer now i h) p =
           (if expiry now [i] h p = [] then pending_timers h p else None)"
    and "calls (run_timer now i h) p = calls h p @ expiry now [i] h p"
proof -
  let ?t = "timers h ! i"
  show "handler_inv (run_timer now i h)"
  proof (cases "live ?t \<and> due ?t \<le> now")
    case False
    with assms(1) show ?thesis by (simp add: run_timer_idle)
  next
    case True
    let ?h = "h\<lparr>timers := (timers h)[i := ?t\<lparr>ran := True\<rparr>],
       pending_timers := (pending_timers h)(timer_path ?t := None),
       fired := fired h @ [\<lparr>event_type = captured ?t, file_path = timer_path ?t\<rparr>]\<rparr>"
    have pi: "pending_timers h (timer_path ?t) = Some i"
      using handler_invD1[OF assms] True by simp
    have "handler_inv ?h"
    proof (rule handler_invI)
      fix j assume j: "j < length (timers ?h)" and l: "live (timers ?h ! j)"
      have ji: "j \<noteq> i" using l assms(2) by (auto simp: live_def)
      then have same: "timers ?h ! j = timers h ! j" by simp
      with j l have p: "pending_timers h (timer_path (timers h ! j)) = Some j"
        using handler_invD1[OF assms(1), of j] by simp
      with pi ji have "timer_path (timers h ! j) \<noteq> timer_path ?t" by auto
      with p same show "pending_timers ?h (timer_path (timers ?h ! j)) = Some j" by simp
    next
      fix r j assume "pending_timers ?h r = Some j"
      then have r: "r \<noteq> timer_path ?t" and p: "pending_timers h r = Some j"
        by (auto split: if_splits)
      note rj = handler_invD2[OF assms(1) p]
      with r have "j \<noteq> i" by auto
      with rj show "j < length (timers ?h) \<and> timer_path (timers ?h ! j) = r \<and> live (timers ?h ! j)"
        by simp
    qed
    with True assms show ?thesis by (simp add: run_timer_fires)
  qed
  show "length (timers (run_timer now i h)) = length (timers h)"
    by (auto simp: run_timer_def Let_def fire_callback_def)
  show "debounce_delay (run_timer now i h) = debounce_delay h"
    by (auto simp: run_timer_def Let_def fire_callback_def)
  show "due (timers (run_timer now i h) ! j) = due (timers h ! j)"
    using assms(2) by (cases "j = i") (auto simp: run_timer_def Let_def fire_callback_def)
  show "captured (timers (run_timer now i h) ! j) = captured (timers h ! j)"
    using assms(2) by (cases "j = i") (auto simp: run_timer_def Let_def fire_callback_def)
  have ex: "expiry now [i] h p = (if live ?t \<and> due ?t \<le> now \<and> timer_path ?t = p
              then [\<lparr>event_type = captured ?t, file_path = p\<rparr>] else [])"
  proof (cases "pending_timers h p")
    case None
    have "\<not> (live ?t \<and> timer_path ?t = p)"
      using handler_invD1[OF assms] None by auto
    with None show ?thesis by (auto simp: expiry_def)
  next
    case (Some k)
    note pk = handler_invD2[OF assms(1) Some]
    show ?thesis
    proof (cases "k = i")
      case True
      with Some pk show ?thesis by (simp add: expiry_def)
    next
      case False
      have "\<not> (live ?t \<and> timer_path ?t = p)"
        using handler_invD1[OF assms] Some False by auto
      with Some False show ?thesis by (auto simp: expiry_def)
    qed
  qed
  show "pending_timers (run_timer now i h) p =
           (if expiry now [i] h p = [] then pending_timers h p else None)"
  proof (cases "live ?t \<and> due ?t \<le> now")
    case False
    then show ?thesis by (auto simp: run_timer_idle ex)
  next
    case True
    then show ?thesis using assms by (simp add: run_timer_fires ex)
  qed
  show "calls (run_timer now i h) p = calls h p @ expiry now [i] h p"
  proof (cases "live ?t \<and> due ?t \<le> now")
    case False
    then show ?thesis by (auto simp: run_timer_idle ex)
  next
    case True
    then show ?thesis using assms by (simp add: run_timer_fires ex calls_def)
  qed
qed

lemma expiry_Nil: "expiry now [] h p = []"
  by (simp add: expiry_def split: option.splits)

lemma expiry_Cons:
  "expiry now (i # is) h p = (if expiry now [i] h p = [] then expiry now is h p else expiry now [i] h p)"
  by (auto simp: expiry_def split: option.splits)

lemma expiry_after_step:
  assumes "handler_inv h" and "i < length (timers h)"
  shows "expiry now is (run_timer now i h) p = (if expiry now [i] h p = [] then expiry now is h p else [])"
proof (cases "expiry now [i] h p = []")
  case True
  then have "pending_timers (run_timer now i h) p = pending_timers h p"
    by (simp add: run_timer_step(6)[OF assms])
  then have "expiry now is (run_timer now i h) p = expiry now is h p"
    by (simp add: expiry_def run_timer_step(4,5)[OF assms] split: option.splits)
  with True show ?thesis by simp
next
  case False
  then have "pending_timers (run_timer now i h) p = None"
    by (simp add: run_timer_step(6)[OF assms])
  with False show ?thesis by (simp add: expiry_def)
qed

lemma fold_run_timer:
  assumes "handler_inv h" and "\<forall>i\<in>set is. i < length (timers h)"
  shows "handler_inv (fold (run_timer now) is h)
       \<and> length (timers (fold (run_timer now) is h)) = length (timers h)
       \<and> debounce_delay (fold (run_timer now) is h) = debounce_delay h
       \<and> (\<forall>j. due (timers (fold (run_timer now) is h) ! j) = due (timers h ! j)
              \<and> captured (timers (fold (run_timer now) is h) ! j) = captured (timers h ! j))
       \<and> pending_timers (fold (run_timer now) is h) p =
           (if expiry now is h p = [] then pending_timers h p else None)
       \<and> calls (fold (run_timer now) is h) p = calls h p @ expiry now is h p"
  using assms
proof (induction "is" arbitrary: h)
  case Nil
  then show ?case by (simp add: expiry_Nil)
next
  case (Cons i "is")
  let ?h1 = "run_timer now i h"
  from Cons.prems have i: "i < length (timers h)" by simp
  note st = run_timer_step[OF Cons.prems(1) i, of now]
  have b: "\<forall>k\<in>set is. k < length (timers ?h1)"
    using Cons.prems(2) by (simp add: st(2))
  note ih = Cons.IH[OF st(1) b]
  have e1: "expiry now is ?h1 p = (if expiry now [i] h p = [] then expiry now is h p else [])"
    by (rule expiry_after_step[OF Cons.prems(1) i])
  have e2: "expiry now (i # is) h p
      = (if expiry now [i] h p = [] then expiry now is h p else expiry now [i] h p)"
    by (rule expiry_Cons)
  have "pending_timers (fold (run_timer now) is ?h1) p =
           (if expiry now (i # is) h p = [] then pending_timers h p else None)"
    using ih unfolding e1 e2 st(6) by simp
  moreover have "calls (fold (run_timer now) is ?h1) p = calls h p @ expiry now (i # is) h p"
    using ih unfolding e1 e2 st(7) by simp
  ultimately show ?case
    using ih by (simp add: st(2,3,4,5))
qed

lemma elapse_view:
  assumes "handler_inv h"
  shows "handler_inv (elapse now h)"
    and "debounce_delay (elapse now h) = debounce_delay h"
    and "waiting (elapse now h) p =
           (case waiting h p of None \<Rightarrow> None
            | Some (d, k) \<Rightarrow> if d \<le> now then None else Some (d, k))"
    and "calls (elapse now h) p =
           (case waiting h p of None \<Rightarrow> calls h p
            | Some (d, k) \<Rightarrow>
                if d \<le> now then calls h p @ [\<lparr>event_type = k, file_path = p\<rparr>] else calls h p)"
proof -
  let ?is = "[0..<length (timers h)]"
  have b: "\<forall>i\<in>set ?is. i < length (timers h)" by simp
  note f = fold_run_timer[OF assms b, of now p, folded elapse_def]
  have ex: "expiry now ?is h p =
      (case waiting h p of None \<Rightarrow> []
       | Some (d, k) \<Rightarrow> if d \<le> now then [\<lparr>event_type = k, file_path = p\<rparr>] else [])"
  proof (cases "pending_timers h p")
    case None
    then show ?thesis by (simp add: expiry_def waiting_def)
  next
    case (Some i)
    from handler_invD2[OF assms Some] have "i < length (timers h)" by simp
    with Some show ?thesis by (simp add: expiry_def waiting_def)
  qed
  show "handler_inv (elapse now h)" using f by simp
  show "debounce_delay (elapse now h) = debounce_delay h" using f by simp
  show "waiting (elapse now h) p =
           (case waiting h p of None \<Rightarrow> None
            | Some (d, k) \<Rightarrow> if d \<le> now then None else Some (d, k))"
  proof (cases "pending_timers h p")
    case None
    with f ex show ?thesis by (simp add: waiting_def)
  next
    case (Some i)
    with f ex show ?thesis by (auto simp: waiting_def split: if_splits)
  qed
  show "calls (elapse now h) p =
           (case waiting h p of None \<Rightarrow> calls h p
            | Some (d, k) \<Rightarrow>
                if d \<le> now then calls h p @ [\<lparr>event_type = k, file_path = p\<rparr>] else calls h p)"
    using f ex by (auto split: option.splits)
qed


lemma notify_inv: "handler_inv h \<Longrightarrow> handler_inv (notify n h)"
  by (simp add: notify_def schedule_inv elapse_view(1))

lemma notify_all_inv: "handler_inv h \<Longrightarrow> handler_inv (notify_all ns h)"
  by (induction ns arbitrary: h) (simp_all add: notify_inv)

lemma agree_refl: "agree_on p h h"
  by (simp add: agree_on_def)

lemma agree_trans: "agree_on p a b \<Longrightarrow> agree_on p b c \<Longrightarrow> agree_on p a c"
  by (simp add: agree_on_def)

lemma agree_elapse:
  "handler_inv h \<Longrightarrow> handler_inv h' \<Longrightarrow> agree_on p h h' \<Longrightarrow>
   agree_on p (elapse t h) (elapse t h')"
  by (auto simp: agree_on_def elapse_view(2,3,4) split: option.splits)

lemma agree_schedule:
  "handler_inv h \<Longrightarrow> handler_inv h' \<Longrightarrow> agree_on p h h' \<Longrightarrow>
   agree_on p (schedule_callback t q et h) (schedule_callback t q et h')"
  by (simp add: agree_on_def schedule_waiting schedule_calls schedule_delay)

lemma agree_notify:
  "handler_inv h \<Longrightarrow> handler_inv h' \<Longrightarrow> agree_on p h h' \<Longrightarrow>
   agree_on p (notify n h) (notify n h')"
  by (simp add: notify_def agree_schedule agree_elapse elapse_view(1))

lemma agree_notify_all:
  "handler_inv h \<Longrightarrow> handler_inv h' \<Longrightarrow> agree_on p h h' \<Longrightarrow>
   agree_on p (notify_all ns h) (notify_all ns h')"
  by (induction ns arbitrary: h h') (simp_all add: agree_notify notify_inv)

lemma elapse_twice:
  assumes "handler_inv h" and "t \<le> t'"
  shows "agree_on p (elapse t' (elapse t h)) (elapse t' h)"
  using assms(2)
  by (auto simp: agree_on_def elapse_view(2,3,4)[OF assms(1)]
      elapse_view(2,3,4)[OF elapse_view(1)[OF assms(1)]] split: option.splits)

lemma notify_other_path:
  "handler_inv h \<Longrightarrow> path n \<noteq> p \<Longrightarrow> agree_on p (notify n h) (elapse (arrival n) h)"
  by (simp add: agree_on_def notify_def schedule_waiting schedule_calls schedule_delay
      elapse_view(1))

lemma notify_all_after_elapse:
  assumes "handler_inv h" and "\<forall>n\<in>set ns. t \<le> arrival n" and "\<forall>n\<in>set ns. arrival n \<le> T"
    and "t \<le> T"
  shows "agree_on p (elapse T (notify_all ns (elapse t h))) (elapse T (notify_all ns h))"
proof (cases ns)
  case Nil
  with assms show ?thesis by (simp add: elapse_twice)
next
  case (Cons n ms)
  with assms(2) have tn: "t \<le> arrival n" by simp
  have i1: "handler_inv (elapse t h)" by (rule elapse_view(1)[OF assms(1)])
  have "agree_on p (elapse (arrival n) (elapse t h)) (elapse (arrival n) h)"
    by (rule elapse_twice[OF assms(1) tn])
  then have "agree_on p (notify n (elapse t h)) (notify n h)"
    unfolding notify_def
    by (intro agree_schedule elapse_view(1) i1 assms(1))
  then have "agree_on p (notify_all ms (notify n (elapse t h))) (notify_all ms (notify n h))"
    by (intro agree_notify_all notify_inv i1 assms(1))
  then have "agree_on p (elapse T (notify_all ms (notify n (elapse t h))))
                        (elapse T (notify_all ms (notify n h)))"
    by (intro agree_elapse notify_all_inv notify_inv i1 assms(1))
  with Cons show ?thesis by simp
qed

lemma other_paths_skipped:
  "handler_inv h \<Longrightarrow> sorted (map arrival ns) \<Longrightarrow> \<forall>n\<in>set ns. arrival n \<le> T \<Longrightarrow>
   agree_on p (elapse T (notify_all ns h))
              (elapse T (notify_all (filter (\<lambda>n. path n = p) ns) h))"
proof (induction ns arbitrary: h)
  case Nil
  then show ?case by (simp add: agree_refl)
next
  case (Cons n ns)
  from Cons.prems have s: "sorted (map arrival ns)" and b: "\<forall>m\<in>set ns. arrival m \<le> T"
    and lo: "\<forall>m\<in>set ns. arrival n \<le> arrival m" and nT: "arrival n \<le> T"
    by auto
  note i = Cons.prems(1)
  show ?case
  proof (cases "path n = p")
    case True
    with Cons.IH[OF notify_inv[OF i] s b, of n] show ?thesis by simp
  next
    case False
    have "agree_on p (notify n h) (elapse (arrival n) h)"
      by (rule notify_other_path[OF i False])
    then have "agree_on p (elapse T (notify_all ns (notify n h)))
                     (elapse T (notify_all ns (elapse (arrival n) h)))"
      by (intro agree_elapse agree_notify_all notify_all_inv notify_inv elapse_view(1) i)
    moreover have "agree_on p (elapse T (notify_all ns (elapse (arrival n) h)))
                     (elapse T (notify_all ns h))"
      by (rule notify_all_after_elapse[OF i lo b nT])
    ultimately have "agree_on p (elapse T (notify_all ns (notify n h)))
                     (elapse T (notify_all ns h))"
      by (rule agree_trans)
    from agree_trans[OF this Cons.IH[OF i s b]] False show ?thesis by simp
  qed
qed

lemma notify_own_path:
  assumes "handler_inv h" and "path n = p"
  shows "waiting (notify n h) p = Some (arrival n + debounce_delay h, kind n)"
    and "calls (notify n h) p = calls (elapse (arrival n) h) p"
    and "debounce_delay (notify n h) = debounce_delay h"
  using assms(2)
  by (simp_all add: notify_def schedule_waiting schedule_calls schedule_delay
      elapse_view(1,2)[OF assms(1)])

lemma burst_fires_once:
  "handler_inv h \<Longrightarrow> ns \<noteq> [] \<Longrightarrow> \<forall>n\<in>set ns. path n = p \<Longrightarrow>
   burst (debounce_delay h) ns \<Longrightarrow> arrival (last ns) + debounce_delay h \<le> T \<Longrightarrow>
   calls (elapse T (notify_all ns h)) p =
     calls (elapse (arrival (hd ns)) h) p @ [\<lparr>event_type = kind (last ns), file_path = p\<rparr>]"
proof (induction ns arbitrary: h)
  case Nil
  then show ?case by simp
next
  case (Cons n ns)
  note i = Cons.prems(1)
  have np: "path n = p" using Cons.prems(3) by simp
  note own = notify_own_path[OF i np]
  note i1 = notify_inv[OF i, of n]
  show ?case
  proof (cases "ns = []")
    case True
    have "arrival n + debounce_delay h \<le> T"
      using Cons.prems(5) True by simp
    then have "calls (elapse T (notify n h)) p
        = calls (notify n h) p @ [\<lparr>event_type = kind n, file_path = p\<rparr>]"
      by (simp add: elapse_view(4)[OF i1] own(1))
    then show ?thesis
      using True own(2) by simp
  next
    case False
    then obtain m ms where ns: "ns = m # ms" by (cases ns) auto
    have gap: "arrival (hd ns) - arrival n < debounce_delay h"
      and b: "burst (debounce_delay (notify n h)) ns"
      using Cons.prems(4) own(3) unfolding ns by simp_all
    have l: "arrival (last ns) + debounce_delay (notify n h) \<le> T"
      using Cons.prems(5) False own(3) by simp
    have pp: "\<forall>k\<in>set ns. path k = p"
      using Cons.prems(3) by simp
    have quiet: "calls (elapse (arrival (hd ns)) (notify n h)) p = calls (elapse (arrival n) h) p"
      using gap by (simp add: elapse_view(4)[OF i1] own(1,2))
    have "calls (elapse T (notify_all ns (notify n h))) p
            = calls (elapse (arrival (hd ns)) (notify n h)) p
              @ [\<lparr>event_type = kind (last ns), file_path = p\<rparr>]"
      by (rule Cons.IH[OF i1 False pp b l])
    then show ?thesis
      using quiet False by simp
  qed
qed

text \<open>
  Claim C4.  A new handler receives notifications in time order, on any paths, all
  of them by time \<open>T\<close>.  If those on path \<open>p\<close> are a burst (each less than the quiet
  period after the one before) and the quiet period after the last of them has
  passed by \<open>T\<close>, then by \<open>T\<close> the callback has been called exactly once for \<open>p\<close>,
  with the kind of the last notification on \<open>p\<close>.  The notifications on other paths
  make no difference: the callbacks for \<open>p\<close> are those of the run that receives the
  notifications on \<open>p\<close> alone.
\<close>

theorem debounce_burst:
  assumes "sorted (map arrival ns)"
    and "\<forall>n\<in>set ns. arrival n \<le> T"
    and "filter (\<lambda>n. path n = p) ns \<noteq> []"
    and "burst delay (filter (\<lambda>n. path n = p) ns)"
    and "arrival (last (filter (\<lambda>n. path n = p) ns)) + delay \<le> T"
  shows "filter (\<lambda>e. file_path e = p) (fired (elapse T (notify_all ns (new_handler delay))))
           = [\<lparr>event_type = kind (last (filter (\<lambda>n. path n = p) ns)), file_path = p\<rparr>]
       \<and> filter (\<lambda>e. file_path e = p) (fired (elapse T (notify_all ns (new_handler delay))))
           = filter (\<lambda>e. file_path e = p)
               (fired (elapse T (notify_all (filter (\<lambda>n. path n = p) ns) (new_handler delay))))"
proof -
  let ?ps = "filter (\<lambda>n. path n = p) ns"
  let ?h = "new_handler delay"
  have i: "handler_inv ?h" by (rule inv_new)
  have d: "debounce_delay ?h = delay" by (rule view_new)
  have "agree_on p (elapse T (notify_all ns ?h)) (elapse T (notify_all ?ps ?h))"
    by (rule other_paths_skipped[OF i assms(1,2)])
  then have eq: "calls (elapse T (notify_all ns ?h)) p = calls (elapse T (notify_all ?ps ?h)) p"
    unfolding agree_on_def by blast
  have all_p: "\<forall>n\<in>set ?ps. path n = p"
    by simp
  have b: "burst (debounce_delay ?h) ?ps"
    unfolding d by (rule assms(4))
  have l: "arrival (last ?ps) + debounce_delay ?h \<le> T"
    unfolding d by (rule assms(5))
  have none: "calls (elapse (arrival (hd ?ps)) ?h) p = []"
    by (simp add: elapse_view(4)[OF i] view_new)
  have "calls (elapse T (notify_all ?ps ?h)) p
      = calls (elapse (arrival (hd ?ps)) ?h) p @ [\<lparr>event_type = kind (last ?ps), file_path = p\<rparr>]"
    by (rule burst_fires_once[OF i assms(3) all_p b l])
  then have one: "calls (elapse T (notify_all ?ps ?h)) p
      = [\<lparr>event_type = kind (last ?ps), file_path = p\<rparr>]"
    unfolding none by simp
  show ?thesis
    using eq one unfolding calls_def by (simp only: simp_thms)
qed

theorem debounce_burst_witness:
  "sorted (map arrival example_notifications)
   \<and> burst (1 / 10) (filter (\<lambda>n. path n = ''/steps/01-01.json'') example_notifications)
   \<and> length (filter (\<lambda>n. path n = ''/steps/01-01.json'') example_notifications) = 3
   \<and> filter (\<lambda>e. file_path e = ''/steps/01-01.json'')
        (fired (elapse 1 (notify_all example_notifications (new_handler (1 / 10)))))
      = [\<lparr>event_type = DELETED, file_path = ''/steps/01-01.json''\<rparr>]"
proof -
  have f: "filter (\<lambda>n. path n = ''/steps/01-01.json'') example_notifications =
     [\<lparr>arrival = 0, path = ''/steps/01-01.json'', kind = CREATED\<rparr>,
      \<lparr>arrival = 5 / 100, path = ''/steps/01-01.json'', kind = MODIFIED\<rparr>,
      \<lparr>arrival = 12 / 100, path = ''/steps/01-01.json'', kind = DELETED\<rparr>]"
    by (simp add: example_notifications_def)
  have h1: "sorted (map arrival example_notifications)"
    by (simp add: example_notifications_def)
  have h2: "\<forall>n\<in>set example_notifications. arrival n \<le> 1"
    by (simp add: example_notifications_def)
  have h3: "filter (\<lambda>n. path n = ''/steps/01-01.json'') example_notifications \<noteq> []"
    unfolding f by simp
  have h4: "burst (1 / 10) (filter (\<lambda>n. path n = ''/steps/01-01.json'') example_notifications)"
    unfolding f by simp
  have h5: "arrival (last (filter (\<lambda>n. path n = ''/steps/01-01.json'') example_notifications))
              + 1 / 10 \<le> 1"
    unfolding f by simp
  have k: "kind (last (filter (\<lambda>n. path n = ''/steps/01-01.json'') example_notifications))
             = DELETED"
    unfolding f by simp
  have n: "length (filter (\<lambda>n. path n = ''/steps/01-01.json'') example_notifications) = 3"
    unfolding f by simp
  show ?thesis
    using debounce_burst[OF h1 h2 h3 h4 h5] h1 h4 k n by (simp only: simp_thms)
qed

section \<open>Broadcast\<close>

lemma send_loop_eq:
  "send_loop ok txt conns = (map (\<lambda>c. SendText c txt) conns, filter (\<lambda>c. \<not> ok c) conns)"
  by (induction conns) auto

lemma remove_loop_failed_aux:
  "\<forall>y\<in>set ys. ok y \<Longrightarrow>
   remove_loop (filter (\<lambda>c. \<not> ok c) xs) (ys @ xs) = ys @ filter ok xs"
proof (induction xs arbitrary: ys)
  case Nil
  then show ?case by simp
next
  case (Cons x xs)
  show ?case
  proof (cases "ok x")
    case True
    with Cons.prems have "\<forall>y\<in>set (ys @ [x]). ok y" by simp
    from Cons.IH[OF this] True show ?thesis by simp
  next
    case False
    with Cons.prems have "x \<notin> set ys" by auto
    then have "remove1 x (ys @ x # xs) = ys @ xs" by (simp add: remove1_append)
    with False Cons.IH[OF Cons.prems] show ?thesis by simp
  qed
qed

lemma remove_loop_failed: "remove_loop (filter (\<lambda>c. \<not> ok c) xs) xs = filter ok xs"
  using remove_loop_failed_aux[of "[]" ok xs] by simp

lemma broadcast_eq:
  "broadcast ok message cm =
     (cm\<lparr>active_connections := filter ok (active_connections cm)\<rparr>,
      Dumps message # map (\<lambda>c. SendText c (json_dumps message)) (active_connections cm))"
  by (simp add: broadcast_def send_loop_eq remove_loop_failed)

text \<open>
  Claim C5.  One call of \<^verbatim>\<open>broadcast\<close> calls \<^verbatim>\<open>json.dumps\<close> once, first, and then
  \<^verbatim>\<open>send_text\<close> once on every connection that was registered when it was called, in
  the order of the list and with that one text, whichever of the sends fail.  The
  send loop runs over the whole list; only afterwards are the connections whose send
  failed taken out, and exactly those.
\<close>

theorem broadcast_delivers_to_all:
  "broadcast ok message cm =
     (cm\<lparr>active_connections := filter ok (active_connections cm)\<rparr>,
      Dumps message # map (\<lambda>c. SendText c (json_dumps message)) (active_connections cm))
   \<and> send_loop ok (json_dumps message) (active_connections cm) =
       (map (\<lambda>c. SendText c (json_dumps message)) (active_connections cm),
        filter (\<lambda>c. \<not> ok c) (active_connections cm))"
  by (simp add: broadcast_eq send_loop_eq)

theorem broadcast_delivers_to_all_witness:
  "broadcast (\<lambda>c. c \<noteq> 2) (update_message example_step) \<lparr>active_connections = [1, 2, 3 :: nat]\<rparr> =
     (\<lparr>active_connections = [1, 3]\<rparr>,
      [Dumps (update_message example_step),
       SendText 1 (json_dumps (update_message example_step)),
       SendText 2 (json_dumps (update_message example_step)),
       SendText 3 (json_dumps (update_message example_step))])"
  using broadcast_delivers_to_all[of "\<lambda>c. c \<noteq> 2" "update_message example_step"
      "\<lparr>active_connections = [1, 2, 3 :: nat]\<rparr>"]
  by simp

section \<open>The connection protocol\<close>

lemma frames_append: "frames c (a @ b) = frames c a @ frames c b"
  by (simp add: frames_def)

lemma frames_sends:
  "frames c (map (\<lambda>w. SendText w txt) conns) = replicate (count_list conns c) txt"
  by (induction conns) (auto simp: frames_def)

lemma frames_Dumps: "frames c (Dumps m # effs) = frames c effs"
  by (simp add: frames_def)

lemma frames_Nil: "frames c [] = []"
  by (simp add: frames_def)

lemma frames_SendText:
  "frames c (SendText w txt # effs) = (if w = c then txt # frames c effs else frames c effs)"
  by (simp add: frames_def)

lemma count_list_remove1_other: "w \<noteq> c \<Longrightarrow> count_list (remove1 w xs) c = count_list xs c"
  by (induction xs) auto

lemma count_list_filter_kept: "ok c \<Longrightarrow> count_list (filter ok xs) c = count_list xs c"
  by (induction xs) auto

lemma count_list_absent: "c \<notin> set xs \<Longrightarrow> count_list xs c = 0"
  by (induction xs) auto

lemma handle_step_update_Some:
  "handle_step_update ok et (Some st) srv =
     (srv\<lparr>connection_manager :=
            (connection_manager srv)\<lparr>active_connections :=
               filter ok (active_connections (connection_manager srv))\<rparr>\<rparr>,
      Dumps (transition_message et st)
        # map (\<lambda>w. SendText w (json_dumps (transition_message et st)))
              (active_connections (connection_manager srv)))"
  by (simp add: handle_step_update_def broadcast_eq)

lemma disconnect_other:
  "w \<noteq> c \<Longrightarrow>
   count_list (active_connections (disconnect w cm)) c = count_list (active_connections cm) c"
  by (simp add: disconnect_def count_list_remove1_other)

lemma connect_other:
  "w \<noteq> c \<Longrightarrow>
   count_list (active_connections (connect w cm)) c = count_list (active_connections cm) c"
  by (simp add: connect_def)

lemma open_other:
  assumes "w \<noteq> c" and "registered_once c srv"
  shows "registered_once c (fst (websocket_endpoint_open ok fs w srv))
       \<and> frames c (snd (websocket_endpoint_open ok fs w srv)) = []"
  using assms
  by (auto simp: websocket_endpoint_open_def registered_once_def Let_def send_personal_def
      disconnect_other connect_other frames_def split: option.splits prod.splits sum.splits)

lemma exec_keeps:
  assumes "keeps c x" and "registered_once c srv"
  shows "registered_once c (fst (exec x srv))
       \<and> frames c (snd (exec x srv)) = map json_dumps (broadcasts [x])"
proof (cases x)
  case (Open w fs ok)
  with assms open_other[of w c srv ok fs] show ?thesis by simp
next
  case (Close w)
  with assms show ?thesis
    by (simp add: websocket_endpoint_close_def registered_once_def disconnect_other frames_Nil)
next
  case (Step_update et st ok)
  show ?thesis
  proof (cases st)
    case None
    with Step_update assms show ?thesis
      by (simp add: handle_step_update_def frames_Nil)
  next
    case (Some s)
    with Step_update assms show ?thesis
      by (simp add: handle_step_update_Some registered_once_def count_list_filter_kept
          frames_Dumps frames_sends del: transition_message.simps)
  qed
qed

lemma broadcasts_Cons: "broadcasts (x # xs) = broadcasts [x] @ broadcasts xs"
  by (cases "(x # xs)" rule: broadcasts.cases) auto

lemma run_Cons:
  "run (x # xs) srv =
     (fst (run xs (fst (exec x srv))), snd (exec x srv) @ snd (run xs (fst (exec x srv))))"
  by (simp add: split_beta)

lemma run_Nil: "run [] srv = (srv, [])"
  by simp

lemma run_keeps:
  "\<forall>x\<in>set ops. keeps c x \<Longrightarrow> registered_once c srv \<Longrightarrow>
   registered_once c (fst (run ops srv))
   \<and> frames c (snd (run ops srv)) = map json_dumps (broadcasts ops)"
proof (induction ops arbitrary: srv)
  case Nil
  then show ?case by (simp add: frames_Nil)
next
  case (Cons x ops)
  from Cons.prems have k: "keeps c x" and ks: "\<forall>y\<in>set ops. keeps c y" by simp_all
  from exec_keeps[OF k Cons.prems(2)]
  have r: "registered_once c (fst (exec x srv))"
    and f: "frames c (snd (exec x srv)) = map json_dumps (broadcasts [x])" by simp_all
  from Cons.IH[OF ks r]
  have r2: "registered_once c (fst (run ops (fst (exec x srv))))"
    and f2: "frames c (snd (run ops (fst (exec x srv)))) = map json_dumps (broadcasts ops)"
    by simp_all
  have "broadcasts (x # ops) = broadcasts [x] @ broadcasts ops" by (rule broadcasts_Cons)
  with r2 f f2 show ?case
    by (simp add: run_Cons frames_append del: run.simps)
qed

lemma open_own:
  assumes "step_service srv = Some svc"
    and "get_all_steps fs svc = (Inr steps, svc1)"
    and "c \<notin> set (active_connections (connection_manager srv))"
    and "ok c"
  shows "snd (websocket_endpoint_open ok fs c srv) =
           [Dumps (init_message steps), SendText c (json_dumps (init_message steps))]
       \<and> registered_once c (fst (websocket_endpoint_open ok fs c srv))"
  using assms
  by (simp add: websocket_endpoint_open_def Let_def send_personal_def registered_once_def
      connect_def count_list_absent)

text \<open>
  A client \<open>c\<close> that is not yet registered connects while the step service exists;
  the read of the snapshot returns and the send of the init message succeeds.
  Whatever follows on the event loop, as long as no send to \<open>c\<close> fails and \<open>c\<close> is
  neither closed nor opened again, the texts sent to \<open>c\<close> are: first the one init
  message, which holds the snapshot that \<^verbatim>\<open>get_all_steps\<close> returned, then exactly one
  message for each transition that is broadcast, in order; and \<open>c\<close> is still
  registered, once.
\<close>

lemma protocol_when_snapshot_read_returns:
  assumes "step_service srv = Some svc"
    and "get_all_steps fs svc = (Inr steps, svc1)"
    and "c \<notin> set (active_connections (connection_manager srv))"
    and "ok c"
    and "\<forall>x\<in>set ops. keeps c x"
  shows "frames c (snd (run (Open c fs ok # ops) srv)) =
           json_dumps (init_message steps) # map json_dumps (broadcasts ops)
       \<and> registered_once c (fst (run (Open c fs ok # ops) srv))"
proof -
  from open_own[of srv svc fs steps svc1 c ok] assms(1-4)
  have e: "snd (websocket_endpoint_open ok fs c srv) =
           [Dumps (init_message steps), SendText c (json_dumps (init_message steps))]"
    and r: "registered_once c (fst (websocket_endpoint_open ok fs c srv))" by simp_all
  from run_keeps[OF assms(5) r]
  have r2: "registered_once c (fst (run ops (fst (websocket_endpoint_open ok fs c srv))))"
    and f2: "frames c (snd (run ops (fst (websocket_endpoint_open ok fs c srv))))
               = map json_dumps (broadcasts ops)" by simp_all
  have "frames c (snd (websocket_endpoint_open ok fs c srv)) = [json_dumps (init_message steps)]"
    unfolding e by (simp add: frames_def)
  with r2 f2 show ?thesis
    by (simp add: run_Cons frames_append del: run.simps)
qed

text \<open>
  Claim C1 at a failing input.  The lifespan starts the service on an empty folder:
  \<^verbatim>\<open>start_watching\<close> returns and the cache is empty.  A valid step file and a file
  holding \<^verbatim>\<open>[]\<close> are then written.  Handling the file event raises in
  \<^verbatim>\<open>refresh\<close>, the cache stays empty and nothing is broadcast.  A client that connects
  now is accepted and registered; \<^verbatim>\<open>get_all_steps\<close> finds the cache empty, reads the
  folder and raises; the endpoint catches the exception and takes the client out
  again.  No init message is sent to the accepted client.
\<close>

theorem no_init_when_snapshot_read_raises:
  "fst (start_watching empty_fs On_file_change (new_StepService idle_watcher)) = Inr ()
   \<and> steps_cache started_service = []
   \<and> watching started_service
   \<and> file_event_pipeline (\<lambda>w. True) broken_fs
        \<lparr>event_type = CREATED, file_path = ''/steps/01-01.json''\<rparr> serving
      = (Inl AttributeError, serving, [])
   \<and> fst (get_all_steps broken_fs started_service) = Inl AttributeError
   \<and> websocket_endpoint_open (\<lambda>w. True) broken_fs 7 serving = (serving, [])"
proof -
  have g: "get_all broken_folder = Inl AttributeError"
    by code_simp
  have c: "steps_cache started_service = []"
    by (simp add: started_service_def start_watching_def new_StepService_def empty_fs_def
        load_steps_into_cache_def get_all_def glob_json_def idle_watcher_def watcher_start_def
        is_running_def dict_by_task_id_def)
  have w: "watching started_service"
    by (simp add: started_service_def start_watching_def new_StepService_def empty_fs_def
        load_steps_into_cache_def get_all_def glob_json_def idle_watcher_def watcher_start_def
        is_running_def dict_by_task_id_def)
  have s: "fst (start_watching empty_fs On_file_change (new_StepService idle_watcher)) = Inr ()"
    by (simp add: start_watching_def new_StepService_def empty_fs_def
        load_steps_into_cache_def get_all_def glob_json_def idle_watcher_def watcher_start_def
        is_running_def dict_by_task_id_def)
  have l: "get_all_steps broken_fs started_service = (Inl AttributeError, started_service)"
    using c g by (simp add: get_all_steps_def load_steps_into_cache_def broken_fs_def)
  have r: "refresh (files broken_fs) ''01-01'' = Inl AttributeError"
    using g by (simp add: refresh_def get_by_id_def broken_fs_def)
  have h: "handle_file_event broken_fs
             \<lparr>event_type = CREATED, file_path = ''/steps/01-01.json''\<rparr> started_service
           = (Inl AttributeError, started_service)"
    using r by (simp add: handle_file_event_def example_extract_known)
  have p: "file_event_pipeline (\<lambda>w. True) broken_fs
        \<lparr>event_type = CREATED, file_path = ''/steps/01-01.json''\<rparr> serving
      = (Inl AttributeError, serving, [])"
    using h by (simp add: file_event_pipeline_def serving_def)
  have e: "websocket_endpoint_open (\<lambda>w. True) broken_fs 7 serving = (serving, [])"
    using l by (simp add: websocket_endpoint_open_def serving_def connect_def disconnect_def)
  show ?thesis
    using s c w p l e by simp
qed

section \<open>The service's life cycle\<close>

text \<open>
  Claim C8.  \<^verbatim>\<open>start_watching\<close> on a service that is watching raises the
  \<^verbatim>\<open>RuntimeError\<close> "StepService is already watching for changes", which is none of
  the exceptions that reading step data raises, and leaves the service as it was;
  \<^verbatim>\<open>stop_watching\<close> on a service that is not watching returns with the service as it
  was.
\<close>

theorem start_stop_policy:
  "(watching svc \<longrightarrow>
      start_watching fs cb svc =
        (Inl (RuntimeError ''StepService is already watching for changes''), svc)
      \<and> RuntimeError ''StepService is already watching for changes''
          \<notin> {ValueError, KeyError, AttributeError, TypeError, OSError, FileNotFoundError})
   \<and> (\<not> watching svc \<longrightarrow> stop_watching svc = svc)"
  by (simp add: start_watching_def stop_watching_def)

theorem start_stop_policy_witness:
  "watching example_service
   \<and> start_watching example_fs On_file_change example_service =
       (Inl (RuntimeError ''StepService is already watching for changes''), example_service)
   \<and> \<not> watching (new_StepService example_watcher :: main_callback StepService)
   \<and> stop_watching (new_StepService example_watcher :: main_callback StepService)
       = new_StepService example_watcher"
  using start_stop_policy[of example_service example_fs On_file_change]
    start_stop_policy[of "new_StepService example_watcher :: main_callback StepService"]
  by (simp add: example_service_def new_StepService_def)

section \<open>File events\<close>

lemma handle_step_update_None: "handle_step_update ok et None srv = (srv, [])"
  by (simp add: handle_step_update_def)

lemma delete_absent: "map_of al k = None \<Longrightarrow> AList.delete k al = al"
  by (induction al) (auto split: if_splits)

text \<open>
  Claim C6.  When a delete event resolves to an id that the cache does not hold, the
  whole path from \<^verbatim>\<open>_handle_file_event\<close> through \<^verbatim>\<open>on_file_change\<close> to
  \<^verbatim>\<open>handle_step_update\<close> returns without an exception, makes no call of
  \<^verbatim>\<open>json.dumps\<close> or \<^verbatim>\<open>send_text\<close>, and leaves the server, the cache included, as it was.
\<close>

theorem delete_unknown_is_silent:
  assumes "step_service srv = Some svc"
    and "event_type fe = DELETED"
    and "extract_task_id_from_path (file_path fe) = Some tid"
    and "map_of (steps_cache svc) tid = None"
  shows "file_event_pipeline ok fs fe srv = (Inr (), srv, [])"
proof -
  have svc: "svc\<lparr>steps_cache := AList.delete tid (steps_cache svc)\<rparr> = svc"
    using assms(4) by (simp add: delete_absent)
  have srv: "srv\<lparr>step_service := Some svc\<rparr> = srv"
    using assms(1) by simp
  have h: "handle_file_event fs fe svc = (Inr (invoke_callback svc ''deleted'' None), svc)"
    using assms(2,3,4) svc by (simp add: handle_file_event_def Let_def event_value_def)
  show ?thesis
  proof (cases "callback svc")
    case None
    then show ?thesis
      using assms(1) h srv by (simp add: file_event_pipeline_def invoke_callback_def)
  next
    case (Some cb)
    then have "invoke_callback svc ''deleted'' None = Some (On_file_change, ''deleted'', None)"
      by (cases cb) (simp add: invoke_callback_def)
    then show ?thesis
      using assms(1) h srv
      by (simp add: file_event_pipeline_def on_file_change_def handle_step_update_None)
  qed
qed

theorem delete_unknown_is_silent_witness:
  "step_service example_server = Some example_service
   \<and> extract_task_id_from_path ''/steps/09-09.json'' = Some ''09-09''
   \<and> map_of (steps_cache example_service) ''09-09'' = None
   \<and> file_event_pipeline (\<lambda>c. True) example_fs
        \<lparr>event_type = DELETED, file_path = ''/steps/09-09.json''\<rparr> example_server
      = (Inr (), example_server, [])"
proof -
  have h1: "step_service example_server = Some example_service"
    by (simp add: example_server_def)
  have h2: "event_type \<lparr>event_type = DELETED, file_path = ''/steps/09-09.json''\<rparr> = DELETED"
    by simp
  have h3: "extract_task_id_from_path
              (file_path \<lparr>event_type = DELETED, file_path = ''/steps/09-09.json''\<rparr>)
            = Some ''09-09''"
    by (simp add: example_extract)
  have h4: "map_of (steps_cache example_service) ''09-09'' = None"
    by (simp add: example_service_def)
  show ?thesis
    using delete_unknown_is_silent[OF h1 h2 h3 h4] h1 h3 h4 by simp
qed

text \<open>
  Claim C9.  With a callback registered, an event that resolves to an id and yields
  no step (a delete of an id the cache does not hold, or a create or modify whose
  \<^verbatim>\<open>refresh\<close> returns \<^verbatim>\<open>None\<close>) still makes \<^verbatim>\<open>_handle_file_event\<close> call the callback,
  with the event type and \<^verbatim>\<open>None\<close>.  It is \<^verbatim>\<open>handle_step_update\<close> that broadcasts nothing
  when the step is \<^verbatim>\<open>None\<close>, whatever the event type.
\<close>

theorem no_transition_still_calls_back:
  assumes "callback svc = Some cb"
    and "extract_task_id_from_path (file_path fe) = Some tid"
    and "(event_type fe = DELETED \<and> map_of (steps_cache svc) tid = None)
         \<or> (event_type fe \<noteq> DELETED \<and> refresh (files fs) tid = Inr None)"
  shows "fst (handle_file_event fs fe svc) = Inr (Some (cb, event_value (event_type fe), None))
         \<and> (\<forall>et. handle_step_update ok et None srv = (srv, []))"
  using assms
  by (auto simp: handle_file_event_def invoke_callback_def handle_step_update_None Let_def)

theorem no_transition_still_calls_back_witness:
  "callback example_service = Some On_file_change
   \<and> refresh (files example_fs) ''09-09'' = Inr None
   \<and> fst (handle_file_event example_fs
            \<lparr>event_type = MODIFIED, file_path = ''/steps/09-09.json''\<rparr> example_service)
      = Inr (Some (On_file_change, ''modified'', None))
   \<and> handle_step_update (\<lambda>c. True) ''modified'' None example_server = (example_server, [])"
proof -
  have h1: "callback example_service = Some On_file_change"
    by (simp add: example_service_def)
  have h2: "extract_task_id_from_path
              (file_path \<lparr>event_type = MODIFIED, file_path = ''/steps/09-09.json''\<rparr>)
            = Some ''09-09''"
    by (simp add: example_extract)
  have h3: "(event_type \<lparr>event_type = MODIFIED, file_path = ''/steps/09-09.json''\<rparr> = DELETED
               \<and> map_of (steps_cache example_service) ''09-09'' = None)
            \<or> (event_type \<lparr>event_type = MODIFIED, file_path = ''/steps/09-09.json''\<rparr> \<noteq> DELETED
               \<and> refresh (files example_fs) ''09-09'' = Inr None)"
    by (simp add: example_refresh_missing)
  show ?thesis
    using no_transition_still_calls_back[OF h1 h2 h3, of "\<lambda>c. True" example_server]
      h1 example_refresh_missing
    by (simp add: event_value_def)
qed

section \<open>The cache stays keyed by task id\<close>

lemma list_all_update:
  "P (k, v) \<Longrightarrow> list_all P al \<Longrightarrow> list_all P (AList.update k v al)"
  by (induction al) auto

lemma list_all_delete: "list_all P al \<Longrightarrow> list_all P (AList.delete k al)"
  by (induction al) auto

lemma foldl_update_keyed:
  "list_all (\<lambda>kv. task_id (snd kv) = fst kv) d \<Longrightarrow>
   list_all (\<lambda>kv. task_id (snd kv) = fst kv)
     (foldl (\<lambda>d st. AList.update (task_id st) st d) d steps)"
proof (induction steps arbitrary: d)
  case Nil
  then show ?case by simp
next
  case (Cons a steps)
  have "list_all (\<lambda>kv. task_id (snd kv) = fst kv) (AList.update (task_id a) a d)"
    using Cons.prems by (intro list_all_update) simp_all
  from Cons.IH[OF this] show ?case by simp
qed

lemma dict_by_task_id_keyed:
  "list_all (\<lambda>kv. task_id (snd kv) = fst kv) (dict_by_task_id steps)"
  unfolding dict_by_task_id_def by (rule foldl_update_keyed) simp

lemma refresh_task_id: "refresh fs tid = Inr (Some st) \<Longrightarrow> task_id st = tid"
  by (auto simp: refresh_def get_by_id_def find_Some_iff split: sum.splits)

lemma load_keyed:
  "cache_keyed svc \<Longrightarrow> cache_keyed (snd (load_steps_into_cache fs svc))"
  by (auto simp: load_steps_into_cache_def cache_keyed_def dict_by_task_id_keyed
      split: sum.splits)

lemma load_establishes:
  "fst (load_steps_into_cache fs svc) = Inr () \<Longrightarrow>
   cache_keyed (snd (load_steps_into_cache fs svc))"
  by (auto simp: load_steps_into_cache_def cache_keyed_def dict_by_task_id_keyed
      split: sum.splits)

lemma handle_file_event_keyed:
  "cache_keyed svc \<Longrightarrow> cache_keyed (snd (handle_file_event fs fe svc))"
  by (auto simp: handle_file_event_def cache_keyed_def Let_def list_all_delete
      intro!: list_all_update dest: refresh_task_id split: option.splits sum.splits)

lemma get_all_steps_keyed:
  "cache_keyed svc \<Longrightarrow> cache_keyed (snd (get_all_steps fs svc))"
  using load_keyed[of svc fs]
  by (auto simp: get_all_steps_def split: prod.splits sum.splits)

lemma start_watching_keyed:
  "cache_keyed svc \<Longrightarrow> cache_keyed (snd (start_watching fs cb svc))"
  using load_keyed[of svc fs]
  by (auto simp: start_watching_def cache_keyed_def Let_def split: prod.splits sum.splits)

lemma stop_watching_keyed: "cache_keyed svc \<Longrightarrow> cache_keyed (stop_watching svc)"
  by (simp add: stop_watching_def cache_keyed_def)

text \<open>
  Claim C10.  Every key of the cache is the \<^verbatim>\<open>task_id\<close> of the step it maps to.  This
  holds of a new service; a full load that returns establishes it, since it keys
  each step by its own \<^verbatim>\<open>task_id\<close>; \<^verbatim>\<open>refresh(task_id)\<close> of the JSON file repository
  returns only a step with that \<^verbatim>\<open>task_id\<close>; and every operation of the service keeps
  it: the load, \<^verbatim>\<open>get_all_steps\<close>, \<^verbatim>\<open>start_watching\<close>, \<^verbatim>\<open>stop_watching\<close> and the handling
  of any file event, whose delete path only takes an entry out.
\<close>

theorem cache_keys_are_task_ids:
  "cache_keyed (new_StepService w :: 'cb StepService)
   \<and> (fst (load_steps_into_cache fs svc) = Inr () \<longrightarrow>
        cache_keyed (snd (load_steps_into_cache fs svc)))
   \<and> (\<forall>tid st. refresh (files fs) tid = Inr (Some st) \<longrightarrow> task_id st = tid)
   \<and> (cache_keyed svc \<longrightarrow>
        cache_keyed (snd (load_steps_into_cache fs svc))
      \<and> cache_keyed (snd (get_all_steps fs svc))
      \<and> cache_keyed (snd (start_watching fs cb svc))
      \<and> cache_keyed (stop_watching svc)
      \<and> cache_keyed (snd (handle_file_event fs fe svc))
      \<and> (\<forall>k st. map_of (steps_cache svc) k = Some st \<longrightarrow> task_id st = k))"
proof -
  have "cache_keyed (new_StepService w :: 'cb StepService)"
    by (simp add: cache_keyed_def new_StepService_def)
  moreover have "\<forall>k st. map_of (steps_cache svc) k = Some st \<longrightarrow> task_id st = k"
    if "cache_keyed svc"
    using that by (auto simp: cache_keyed_def list_all_iff dest!: map_of_SomeD)
  ultimately show ?thesis
    using load_establishes[of fs svc] refresh_task_id[of "files fs"] load_keyed[of svc fs]
      get_all_steps_keyed[of svc fs] start_watching_keyed[of svc fs cb]
      stop_watching_keyed[of svc] handle_file_event_keyed[of svc fs fe]
    by blast
qed

theorem cache_keys_are_task_ids_witness:
  "cache_keyed example_service
   \<and> refresh (files example_fs) ''01-01'' = Inr (Some example_step)
   \<and> task_id example_step = ''01-01''
   \<and> fst (load_steps_into_cache example_fs example_service) = Inr ()
   \<and> cache_keyed (snd (load_steps_into_cache example_fs example_service))
   \<and> cache_keyed (snd (handle_file_event example_fs
        \<lparr>event_type = DELETED, file_path = ''/steps/01-01.json''\<rparr> example_service))
   \<and> cache_keyed (snd (handle_file_event example_fs
        \<lparr>event_type = MODIFIED, file_path = ''/steps/01-01.json''\<rparr> example_service))"
proof -
  have k: "cache_keyed example_service"
    by (simp add: cache_keyed_def example_service_def example_step_def)
  have l: "fst (load_steps_into_cache example_fs example_service) = Inr ()"
    by code_simp
  have t: "task_id example_step = ''01-01''"
    by (simp add: example_step_def)
  show ?thesis
    using k l t example_refresh
      cache_keys_are_task_ids[of example_watcher example_fs example_service On_file_change
        "\<lparr>event_type = DELETED, file_path = ''/steps/01-01.json''\<rparr>"]
      cache_keys_are_task_ids[of example_watcher example_fs example_service On_file_change
        "\<lparr>event_type = MODIFIED, file_path = ''/steps/01-01.json''\<rparr>"]
    by blast
qed

section \<open>Applying an event twice\<close>

lemma update_twice: "AList.update k v (AList.update k v al) = AList.update k v al"
  by (induction al) auto

lemma update_one_entry:
  "distinct (map fst al) \<Longrightarrow> length (filter (\<lambda>kv. fst kv = k) (AList.update k v al)) = 1"
proof (induction al)
  case Nil
  then show ?case by simp
next
  case (Cons p al)
  show ?case
  proof (cases "fst p = k")
    case True
    with Cons.prems have "k \<notin> fst ` set al" by auto
    then have "filter (\<lambda>kv. fst kv = k) al = []" by (auto simp: filter_empty_conv)
    with True show ?thesis by simp
  next
    case False
    with Cons show ?thesis by simp
  qed
qed

text \<open>
  Claim C7.  Take a create or modify event that resolves to an id for which the
  repository returns a step, and a cache that is a dictionary (no key twice).
  Handling the event a second time, with the files unchanged, gives the same call
  of the callback and leaves the service exactly as the first handling left it; the
  cache then maps the id to the step the repository returned and holds one entry for
  that id.
\<close>

theorem update_event_idempotent:
  assumes "event_type fe \<noteq> DELETED"
    and "extract_task_id_from_path (file_path fe) = Some tid"
    and "refresh (files fs) tid = Inr (Some st)"
    and "distinct (map fst (steps_cache svc))"
  shows "handle_file_event fs fe (snd (handle_file_event fs fe svc)) = handle_file_event fs fe svc
       \<and> map_of (steps_cache (snd (handle_file_event fs fe svc))) tid = Some st
       \<and> length (filter (\<lambda>kv. fst kv = tid) (steps_cache (snd (handle_file_event fs fe svc)))) = 1"
  using assms
  by (simp add: handle_file_event_def Let_def invoke_callback_def update_twice update_one_entry
      AList.update_conv')

theorem update_event_idempotent_witness:
  "refresh (files example_fs) ''01-01'' = Inr (Some example_step)
   \<and> distinct (map fst (steps_cache (new_StepService example_watcher :: main_callback StepService)))
   \<and> handle_file_event example_fs \<lparr>event_type = CREATED, file_path = ''/steps/01-01.json''\<rparr>
       (snd (handle_file_event example_fs
              \<lparr>event_type = CREATED, file_path = ''/steps/01-01.json''\<rparr>
              (new_StepService example_watcher :: main_callback StepService)))
     = handle_file_event example_fs \<lparr>event_type = CREATED, file_path = ''/steps/01-01.json''\<rparr>
         (new_StepService example_watcher)
   \<and> steps_cache (snd (handle_file_event example_fs
        \<lparr>event_type = CREATED, file_path = ''/steps/01-01.json''\<rparr>
        (new_StepService example_watcher :: main_callback StepService)))
     = [(''01-01'', example_step)]"
proof -
  have h1: "event_type \<lparr>event_type = CREATED, file_path = ''/steps/01-01.json''\<rparr> \<noteq> DELETED"
    by simp
  have h2: "extract_task_id_from_path
              (file_path \<lparr>event_type = CREATED, file_path = ''/steps/01-01.json''\<rparr>)
            = Some ''01-01''"
    by (simp add: example_extract_known)
  have h4: "distinct (map fst (steps_cache (new_StepService example_watcher :: main_callback StepService)))"
    by (simp add: new_StepService_def)
  have c: "steps_cache (snd (handle_file_event example_fs
        \<lparr>event_type = CREATED, file_path = ''/steps/01-01.json''\<rparr>
        (new_StepService example_watcher :: main_callback StepService)))
     = [(''01-01'', example_step)]"
    using h2 example_refresh
    by (simp add: handle_file_event_def Let_def new_StepService_def)
  show ?thesis
    using update_event_idempotent[OF h1 h2 example_refresh h4] example_refresh h4 c
    by simp
qed

end
